theory Spec2Isabelle
  imports Main
begin

section \<open>Values of the host language\<close>

text \<open>
  The executor handles values it knows nothing about (\<open>unknown\<close> in the source): what a
  statement throws, what a declaration binds, what the caller injects. The model keeps of
  a value exactly what the source inspects: whether it is \<open>instanceof Error\<close> of the host
  realm, whether it is a non-null object, its \<open>message\<close> property, and the text
  \<open>String(v)\<close> gives.

  The type holds the values on which these inspections return. A value on which one of
  them throws (an object without prototype or with a throwing \<open>toString\<close>, for which
  \<open>String(v)\<close> throws, or one whose \<open>message\<close> is a throwing getter) is not a value of
  this type: for such a thrown value the \<open>catch\<close> block of \<open>executeStatement\<close> throws
  itself and the background task ends without an event for the statement.

  An \<open>Error\<close> object is a heap object with an identity; the model records who allocated
  it. The only allocation sites inside the executor are the timer callback of
  \<open>withTimeout\<close> and the run controller (\<open>new Error(...)\<close> for parse failures and for
  the guard of \<open>run\<close>); everything else is foreign: the caller's injected functions, the
  transpiler, the VM.
\<close>

datatype origin = TimeoutTimer | RunController | Foreign

datatype js_value =
    JUndefined
  | JNull
  | JBoolean bool
  | JString string
  | JOther string
      \<comment> \<open>any other value that is not an object (number, bigint, symbol, function),
          given by the text \<open>String\<close> returns for it\<close>
  | JHostError origin string string
      \<comment> \<open>an instance of the host realm's \<open>Error\<close>: who allocated it, its \<open>name\<close>,
          its \<open>message\<close>\<close>
  | JObject "js_value option" string
      \<comment> \<open>any other non-null object, an error object of the VM realm included (the VM
          context has its own \<open>Error\<close>, so \<open>instanceof Error\<close> is false for it): its
          \<open>message\<close> property (\<open>None\<close> when absent) and the text \<open>String\<close> returns\<close>

fun instanceof_Error :: "js_value \<Rightarrow> bool" where
  "instanceof_Error (JHostError _ _ _) = True"
| "instanceof_Error _ = False"

fun is_object :: "js_value \<Rightarrow> bool" where
  \<comment> \<open>\<open>typeof v === "object" && v !== null\<close>\<close>
  "is_object (JHostError _ _ _) = True"
| "is_object (JObject _ _) = True"
| "is_object _ = False"

fun message_property :: "js_value \<Rightarrow> js_value" where
  \<comment> \<open>\<open>(v as { message?: unknown }).message\<close> of an object\<close>
  "message_property (JHostError _ _ m) = JString m"
| "message_property (JObject (Some m) _) = m"
| "message_property _ = JUndefined"

fun js_String :: "js_value \<Rightarrow> string" where
  \<comment> \<open>\<open>String(v)\<close>; for an \<open>Error\<close> instance this is \<open>Error.prototype.toString\<close>\<close>
  "js_String JUndefined = ''undefined''"
| "js_String JNull = ''null''"
| "js_String (JBoolean b) = (if b then ''true'' else ''false'')"
| "js_String (JString s) = s"
| "js_String (JOther s) = s"
| "js_String (JHostError _ n m) =
     (if n = [] then m else if m = [] then n else n @ '': '' @ m)"
| "js_String (JObject _ s) = s"

section \<open>Public data types (types.ts)\<close>

datatype execution_error_type = Parse | Runtime | Timeout

text \<open>\<open>ExecutionError\<close>: fields \<open>type\<close>, \<open>thrown\<close>, \<open>message\<close>, \<open>line\<close>.\<close>

record execution_error =
  err_type :: execution_error_type
  err_thrown :: js_value
  err_message :: string
  err_line :: nat

text \<open>\<open>ExecutionEvent\<close>: fields \<open>statement\<close>, \<open>line\<close>, \<open>logs\<close>, \<open>error?\<close>.\<close>

record execution_event =
  ev_statement :: string
  ev_line :: nat
  ev_logs :: string
  ev_error :: "execution_error option"

text \<open>\<open>ExecutionResult\<close>: fields \<open>logs\<close>, \<open>error?\<close>.\<close>

record execution_result =
  res_logs :: string
  res_error :: "execution_error option"

section \<open>The parser module (ts-parser)\<close>

text \<open>
  The part of the TypeScript syntax tree that \<open>extractBindingsFromAST\<close> walks. A binding
  pattern is given by the \<open>name\<close> of each of its elements; an array pattern may hold
  omitted elements (\<open>None\<close>).
\<close>

datatype binding_name =
    Identifier string
  | ObjectBindingPattern "binding_name list"
  | ArrayBindingPattern "binding_name option list"

datatype statement =
    VariableStatement "binding_name list"
      \<comment> \<open>\<open>declarationList.declarations\<close>, each given by its \<open>name\<close>\<close>
  | FunctionDeclaration "string option"
  | ClassDeclaration "string option"
  | OtherStatement

record source_file =
  parseDiagnostics :: "string list"
  statements :: "statement list"

text \<open>\<open>Bindings\<close>: fields \<open>variables\<close>, \<open>functions\<close>, \<open>classes\<close>.\<close>

record bindings =
  b_variables :: "string list"
  b_functions :: "string list"
  b_classes :: "string list"

datatype parse_result = Incomplete | Complete source_file

definition parseStatement ::
  "(string \<Rightarrow> bool \<Rightarrow> source_file) \<Rightarrow> string \<Rightarrow> bool \<Rightarrow> parse_result" where
  \<comment> \<open>the first argument is \<open>ts.createSourceFile\<close>, of the TypeScript library, as a
      function of the source and of the \<open>jsx\<close> flag\<close>
  "parseStatement createSourceFile source jsx =
     (let sourceFile = createSourceFile source jsx;
          diagnostics = parseDiagnostics sourceFile
      in if length diagnostics > 0 then Incomplete else Complete sourceFile)"

fun extractFromBindingName :: "binding_name \<Rightarrow> string list" where
  "extractFromBindingName (Identifier text) = [text]"
| "extractFromBindingName (ObjectBindingPattern elements) =
     concat (map extractFromBindingName elements)"
| "extractFromBindingName (ArrayBindingPattern elements) =
     concat (map (\<lambda>el. case el of None \<Rightarrow> [] | Some n \<Rightarrow> extractFromBindingName n)
                 elements)"

fun extract_declarations :: "binding_name list \<Rightarrow> string list \<Rightarrow> string list" where
  \<comment> \<open>the inner loop: \<open>variables.push(...extractFromBindingName(decl.name))\<close>\<close>
  "extract_declarations [] vs = vs"
| "extract_declarations (decl # decls) vs =
     extract_declarations decls (vs @ extractFromBindingName decl)"

fun extract_statement :: "statement \<Rightarrow> bindings \<Rightarrow> bindings" where
  \<comment> \<open>the body of the loop over \<open>sourceFile.statements\<close>\<close>
  "extract_statement (VariableStatement decls) b =
     b\<lparr>b_variables := extract_declarations decls (b_variables b)\<rparr>"
| "extract_statement (FunctionDeclaration (Some name)) b =
     b\<lparr>b_functions := b_functions b @ [name]\<rparr>"
| "extract_statement (ClassDeclaration (Some name)) b =
     b\<lparr>b_classes := b_classes b @ [name]\<rparr>"
| "extract_statement _ b = b"

fun extract_statements :: "statement list \<Rightarrow> bindings \<Rightarrow> bindings" where
  "extract_statements [] b = b"
| "extract_statements (s # ss) b = extract_statements ss (extract_statement s b)"

definition extractBindingsFromAST :: "source_file \<Rightarrow> bindings" where
  "extractBindingsFromAST sourceFile =
     extract_statements (statements sourceFile)
       \<lparr>b_variables = [], b_functions = [], b_classes = []\<rparr>"

definition allNames :: "bindings \<Rightarrow> string list" where
  \<comment> \<open>\<open>[...bindings.variables, ...bindings.functions, ...bindings.classes]\<close>\<close>
  "allNames b = b_variables b @ b_functions b @ b_classes b"

text \<open>
  How often the top-level declarations of a statement list bind a name, counted on the
  tree itself.
\<close>

fun name_occurrences :: "string \<Rightarrow> binding_name \<Rightarrow> nat" where
  "name_occurrences x (Identifier text) = (if text = x then 1 else 0)"
| "name_occurrences x (ObjectBindingPattern elements) =
     sum_list (map (name_occurrences x) elements)"
| "name_occurrences x (ArrayBindingPattern elements) =
     sum_list (map (\<lambda>el. case el of None \<Rightarrow> 0 | Some n \<Rightarrow> name_occurrences x n)
                   elements)"

fun statement_occurrences :: "string \<Rightarrow> statement \<Rightarrow> nat" where
  "statement_occurrences x (VariableStatement decls) =
     sum_list (map (name_occurrences x) decls)"
| "statement_occurrences x (FunctionDeclaration (Some name)) = (if name = x then 1 else 0)"
| "statement_occurrences x (ClassDeclaration (Some name)) = (if name = x then 1 else 0)"
| "statement_occurrences x _ = 0"

definition bound_occurrences :: "string \<Rightarrow> source_file \<Rightarrow> nat" where
  "bound_occurrences x sourceFile =
     sum_list (map (statement_occurrences x) (statements sourceFile))"

section \<open>Text helpers of the host\<close>

text \<open>
  Source text is a list of characters; the model covers the code units below 256.
  \<open>String.prototype.trim\<close> removes white space and line terminators at both ends: in
  this range the characters 9 to 13, the space and the no-break space.
\<close>

definition is_space :: "char \<Rightarrow> bool" where
  "is_space c = (c \<in> set [CHR 0x09, CHR 0x0A, CHR 0x0B, CHR 0x0C, CHR 0x0D, CHR '' '', CHR 0xA0])"

definition trim :: "string \<Rightarrow> string" where
  "trim s = rev (dropWhile is_space (rev (dropWhile is_space s)))"

fun join :: "string \<Rightarrow> string list \<Rightarrow> string" where
  \<comment> \<open>\<open>Array.prototype.join\<close>\<close>
  "join sep [] = []"
| "join sep [x] = x"
| "join sep (x # y # ys) = x @ sep @ join sep (y # ys)"

section \<open>The executor (streaming-executor)\<close>

subsection \<open>The VM context and the host interfaces\<close>

text \<open>
  What a global of the VM context holds: the context object itself (\<open>ctx.globalThis =
  ctx\<close>), a function of the host (the timers), a console made by
  \<open>createConsoleForBuffer\<close>, or any other value.
\<close>

datatype context_value = ContextSelf | HostFunction string | ConsoleObject | Value js_value

type_synonym vm_context = "string \<Rightarrow> context_value option"

text \<open>
  A promise observed when the race of \<open>withTimeout\<close> is decided: how it has settled, if it
  has. A fulfilled unit yields a record of values or nothing (\<open>None\<close>: \<open>undefined\<close>).
\<close>

datatype settlement = Fulfilled "(string \<Rightarrow> js_value option) option" | Rejected js_value

text \<open>
  Statements leave work behind: timers, pending promise reactions, closures that log or
  assign to globals later. That work runs whenever the background task is suspended: while
  a later statement is awaited, or while the task waits on the stream. The model keeps it
  as a state \<open>'w\<close> of the event loop, of which only the host knows the content.

  What running a wrapped script in the context gives, for a timer of \<open>ms\<close> and an event
  loop holding \<open>w\<close>: a value thrown by \<open>new vm.Script\<close> or \<open>runInContext\<close> itself (\<open>Inl\<close>),
  or the promise, settled before the timer fires (\<open>Some\<close>) or not (\<open>None\<close>); the chunks
  written by then to the console installed for the statement, by the statement or by
  work left from earlier ones; the context and the event loop as they are then.
\<close>

record 'w script_run =
  sr_outcome :: "js_value + settlement option"
  sr_written :: "string list"
  sr_context :: vm_context
  sr_pending :: 'w

text \<open>The two places where \<open>for await\<close> suspends the task on the stream.\<close>

datatype wait = NextChunk | Closing

text \<open>
  The collaborators outside the repository: \<open>ts.createSourceFile\<close> (by source and \<open>jsx\<close>
  flag), \<open>Bun.Transpiler.transformSync\<close> (by source and loader; \<open>Inl\<close> is what it
  throws), the VM (by wrapped script, context, timer duration and event loop), and the
  event loop: what it does to itself and to the context while the task is suspended on
  the stream (waiting for \<open>next()\<close>, which brings a chunk or the end, or for \<open>return()\<close>
  after a \<open>return\<close> in the loop; output written then reaches no event, since the console
  installed is that of a statement whose logs are already taken), and what it holds when
  \<open>run\<close> is called.
\<close>

record 'w host =
  createSourceFile :: "string \<Rightarrow> bool \<Rightarrow> source_file"
  transformSync :: "string \<Rightarrow> string \<Rightarrow> js_value + string"
  runInContext :: "string \<Rightarrow> vm_context \<Rightarrow> int \<Rightarrow> 'w \<Rightarrow> 'w script_run"
  await_stream :: "wait \<Rightarrow> 'w \<Rightarrow> vm_context \<Rightarrow> 'w \<times> vm_context"
  pending0 :: 'w

subsection \<open>Construction\<close>

text \<open>The instance: \<open>_context\<close>, \<open>timeout\<close>, \<open>jsx\<close>, \<open>continueOnError\<close>, \<open>_running\<close>.\<close>

record executor =
  exec_context :: vm_context
  exec_timeout :: int
  exec_jsx :: bool
  exec_continueOnError :: bool
  exec_running :: bool

datatype jsx_setting = JsxFlag bool | JsxConfig

text \<open>
  \<open>StreamingExecutorOptions\<close>; \<open>context\<close> is given by its \<open>Object.entries\<close>. The fields
  of a \<open>JsxOptions\<close> object only configure the transpiler, which is part of the host.
\<close>

record executor_options =
  opt_context :: "(string \<times> js_value) list option"
  opt_timeout :: "int option"
  opt_jsx :: "jsx_setting option"
  opt_continueOnError :: "bool option"

definition DEFAULT_TIMEOUT :: int where
  "DEFAULT_TIMEOUT = 30000"

definition createConsoleForBuffer :: context_value where
  \<comment> \<open>the buffer the console writes to is \<open>sr_written\<close> of the script that runs with it\<close>
  "createConsoleForBuffer = ConsoleObject"

definition setContextConsole :: "vm_context \<Rightarrow> context_value \<Rightarrow> vm_context" where
  \<comment> \<open>through a \<open>globalThis\<close> that is another object the second write leaves the context\<close>
  "setContextConsole ctx console =
     (let ctx1 = ctx(''console'' \<mapsto> console)
      in case ctx1 ''globalThis'' of
           Some ContextSelf \<Rightarrow> ctx1(''console'' := ctx1 ''console'')
         | _ \<Rightarrow> ctx1)"

definition initializeBuiltins :: "vm_context \<Rightarrow> vm_context" where
  "initializeBuiltins ctx =
     setContextConsole
       (ctx(''globalThis'' \<mapsto> ContextSelf,
            ''setTimeout'' \<mapsto> HostFunction ''setTimeout'',
            ''clearTimeout'' \<mapsto> HostFunction ''clearTimeout'',
            ''setInterval'' \<mapsto> HostFunction ''setInterval'',
            ''clearInterval'' \<mapsto> HostFunction ''clearInterval'',
            ''queueMicrotask'' \<mapsto> HostFunction ''queueMicrotask''))
       createConsoleForBuffer"

fun apply_user_context :: "(string \<times> js_value) list \<Rightarrow> vm_context \<Rightarrow> vm_context" where
  \<comment> \<open>\<open>for (const [key, value] of Object.entries(options.context)) ctx[key] = value\<close>;
      a key is a name the assignment stores under: the model leaves out \<open>__proto__\<close>,
      which the assignment hands to the inherited setter\<close>
  "apply_user_context [] ctx = ctx"
| "apply_user_context ((key, v) # entries) ctx =
     apply_user_context entries (ctx(key \<mapsto> Value v))"

definition new_StreamingExecutor :: "executor_options option \<Rightarrow> executor" where
  "new_StreamingExecutor options =
     (let ctx = initializeBuiltins Map.empty
      in \<lparr>exec_context =
            (case Option.bind options opt_context of
               Some entries \<Rightarrow> apply_user_context entries ctx
             | None \<Rightarrow> ctx),
          exec_timeout =
            (case Option.bind options opt_timeout of Some t \<Rightarrow> t | None \<Rightarrow> DEFAULT_TIMEOUT),
          exec_jsx =
            (case Option.bind options opt_jsx of
               Some (JsxFlag b) \<Rightarrow> b
             | Some JsxConfig \<Rightarrow> True
             | None \<Rightarrow> False),
          exec_continueOnError =
            (case Option.bind options opt_continueOnError of Some b \<Rightarrow> b | None \<Rightarrow> False),
          exec_running = False\<rparr>)"

subsection \<open>Executing one statement\<close>

fun error_message :: "js_value \<Rightarrow> string" where
  \<comment> \<open>\<open>e.message\<close> where \<open>e instanceof Error\<close> holds\<close>
  "error_message (JHostError _ _ m) = m"
| "error_message _ = []"

fun formatErrorMessage :: "js_value \<Rightarrow> string" where
  "formatErrorMessage (JHostError cr n m) = error_message (JHostError cr n m)"
| "formatErrorMessage e =
     (if is_object e then
        (case message_property e of
           JString m \<Rightarrow> if length m > 0 then m else js_String e
         | _ \<Rightarrow> js_String e)
      else js_String e)"

definition transpile :: "'w host \<Rightarrow> executor \<Rightarrow> string \<Rightarrow> string + string" where
  \<comment> \<open>\<open>Inl\<close> is \<open>{ error }\<close>, \<open>Inr\<close> is \<open>{ code }\<close>\<close>
  "transpile h ex source =
     (let loader = (if exec_jsx ex then ''tsx'' else ''ts'')
      in case transformSync h source loader of
           Inr code \<Rightarrow> Inr code
         | Inl e \<Rightarrow> Inl (if instanceof_Error e then error_message e else js_String e))"

definition timeout_sentinel :: js_value where
  \<comment> \<open>\<open>new Error("Execution timeout")\<close> in the timer callback of \<open>withTimeout\<close>\<close>
  "timeout_sentinel = JHostError TimeoutTimer ''Error'' ''Execution timeout''"

fun withTimeout :: "settlement option \<Rightarrow> settlement" where
  \<comment> \<open>\<open>Promise.race([promise, timeoutPromise])\<close>, awaited\<close>
  "withTimeout (Some settled) = settled"
| "withTimeout None = Rejected timeout_sentinel"

definition executeStatement_catch :: "js_value \<Rightarrow> nat \<Rightarrow> execution_error" where
  \<comment> \<open>the \<open>catch (e)\<close> block of \<open>executeStatement\<close>\<close>
  "executeStatement_catch e line =
     (if instanceof_Error e \<and> message_property e = JString ''Execution timeout'' then
        \<lparr>err_type = Timeout, err_thrown = e, err_message = ''Execution timeout'',
         err_line = line\<rparr>
      else
        \<lparr>err_type = Runtime, err_thrown = e, err_message = formatErrorMessage e,
         err_line = line\<rparr>)"

fun hoist :: "string list \<Rightarrow> (string \<Rightarrow> js_value option) \<Rightarrow> vm_context \<Rightarrow> vm_context" where
  \<comment> \<open>\<open>for (const name of allNames) ctx[name] = result[name]\<close>, for names other than
      \<open>__proto__\<close>\<close>
  "hoist [] r ctx = ctx"
| "hoist (name # names) r ctx =
     hoist names r (ctx(name \<mapsto> Value (case r name of Some v \<Rightarrow> v | None \<Rightarrow> JUndefined)))"

definition wrap :: "string \<Rightarrow> string list \<Rightarrow> string" where
  "wrap transpiled names =
     (if length names > 0 then
        ''(async () => { '' @ transpiled @ ''; return { '' @ join '', '' names @ '' }; })()''
      else ''(async () => { '' @ transpiled @ ''; })()'')"

definition executeStatement ::
  "'w host \<Rightarrow> executor \<Rightarrow> 'w \<Rightarrow> string \<Rightarrow> bindings \<Rightarrow> nat
     \<Rightarrow> executor \<times> 'w \<times> string \<times> execution_error option" where
  \<comment> \<open>returns the instance with its context updated, the event loop, \<open>logs\<close> and
      \<open>error?\<close>\<close>
  "executeStatement h ex w transpiled bs line =
     (let ctx1 = setContextConsole (exec_context ex) createConsoleForBuffer;
          names = allNames bs;
          r = runInContext h (wrap transpiled names) ctx1 (exec_timeout ex) w;
          logs = concat (sr_written r)
      in case (case sr_outcome r of
                 Inl e \<Rightarrow> Rejected e
               | Inr promise \<Rightarrow> withTimeout promise) of
           Fulfilled res \<Rightarrow>
             (ex\<lparr>exec_context :=
                   (case res of
                      Some record_ \<Rightarrow>
                        if length names > 0 then hoist names record_ (sr_context r)
                        else sr_context r
                    | None \<Rightarrow> sr_context r)\<rparr>,
              sr_pending r, logs, None)
         | Rejected e \<Rightarrow>
             (ex\<lparr>exec_context := sr_context r\<rparr>, sr_pending r, logs,
              Some (executeStatement_catch e line)))"

subsection \<open>The run controller\<close>

datatype queued_event = Event execution_event | Done

text \<open>
  The variables of one \<open>run\<close>: the instance (\<open>self\<close>), the local variables of the
  background task and the ones it shares with the event generator and the result promise;
  with them, what the event loop holds.
\<close>

record 'w run_state =
  self :: executor
  pending :: 'w
  buffer :: string
  lineNumber :: nat
  statementStartLine :: nat
  allLogs :: string
  finalError :: "execution_error option"
  eventQueue :: "queued_event list"

text \<open>
  How a block of the loop body ends: it falls through to the code after it, it reaches
  \<open>continue\<close>, or it reaches \<open>return\<close>.
\<close>

datatype 'a flow = Proceed 'a | Continue 'a | Return 'a

definition pushEvent :: "'w run_state \<Rightarrow> queued_event \<Rightarrow> 'w run_state" where
  \<comment> \<open>waking a waiting consumer changes no variable of the run\<close>
  "pushEvent st item = st\<lparr>eventQueue := eventQueue st @ [item]\<rparr>"

definition set_finalError :: "execution_error \<Rightarrow> 'w run_state \<Rightarrow> 'w run_state" where
  \<comment> \<open>\<open>if (!finalError) finalError = error\<close>\<close>
  "set_finalError error st =
     (if finalError st = None then st\<lparr>finalError := Some error\<rparr> else st)"

definition parse_error :: "string \<Rightarrow> nat \<Rightarrow> execution_error" where
  \<comment> \<open>\<open>{ type: "parse", thrown: new Error(msg), message: msg, line }\<close>\<close>
  "parse_error msg line =
     \<lparr>err_type = Parse, err_thrown = JHostError RunController ''Error'' msg,
      err_message = msg, err_line = line\<rparr>"

definition lowering_failed :: "'w run_state \<Rightarrow> string \<Rightarrow> string \<Rightarrow> 'w run_state" where
  \<comment> \<open>the transpiler failed: set the governing error, push the event\<close>
  "lowering_failed st trimmed msg =
     (let error = parse_error msg (statementStartLine st);
          st1 = set_finalError error st
      in pushEvent st1
           (Event \<lparr>ev_statement = trimmed, ev_line = statementStartLine st, ev_logs = [],
                   ev_error = Some error\<rparr>))"

definition statement_executed ::
  "'w run_state \<Rightarrow> string \<Rightarrow> executor \<times> 'w \<times> string \<times> execution_error option
     \<Rightarrow> 'w run_state" where
  \<comment> \<open>after \<open>executeStatement\<close>: append the logs, push the event\<close>
  "statement_executed st trimmed execResult =
     (case execResult of (ex', w', logs, err) \<Rightarrow>
        pushEvent (st\<lparr>self := ex', pending := w', allLogs := allLogs st @ logs\<rparr>)
          (Event \<lparr>ev_statement = trimmed, ev_line = statementStartLine st, ev_logs = logs,
                  ev_error = err\<rparr>))"

definition next_statement :: "'w run_state \<Rightarrow> 'w run_state" where
  \<comment> \<open>\<open>buffer = ""; statementStartLine = lineNumber\<close>\<close>
  "next_statement st = st\<lparr>buffer := [], statementStartLine := lineNumber st\<rparr>"

definition on_semicolon :: "'w host \<Rightarrow> 'w run_state \<Rightarrow> 'w run_state flow" where
  \<comment> \<open>the block under \<open>if (char === ";")\<close>\<close>
  "on_semicolon h st =
     (let trimmed = trim (buffer st)
      in if trimmed \<noteq> [] then
           (case parseStatement (createSourceFile h) trimmed (exec_jsx (self st)) of
              Complete sourceFile \<Rightarrow>
                (let bs = extractBindingsFromAST sourceFile
                 in case transpile h (self st) trimmed of
                      Inl msg \<Rightarrow>
                        (let st1 = lowering_failed st trimmed msg
                         in if \<not> exec_continueOnError (self st) then Return st1
                            else Continue (next_statement st1))
                    | Inr code \<Rightarrow>
                        (let execResult =
                               executeStatement h (self st) (pending st) code bs
                                 (statementStartLine st);
                             st1 = statement_executed st trimmed execResult
                         in case snd (snd (snd execResult)) of
                              Some error \<Rightarrow>
                                (let st2 = set_finalError error st1
                                 in if \<not> exec_continueOnError (self st) then Return st2
                                    else Proceed (next_statement st2))
                            | None \<Rightarrow> Proceed (next_statement st1)))
            | Incomplete \<Rightarrow> Proceed st)
         else Proceed st)"

definition track_newline :: "'w run_state \<Rightarrow> 'w run_state" where
  \<comment> \<open>the block under \<open>if (char is a newline)\<close>\<close>
  "track_newline st =
     (let st1 = st\<lparr>lineNumber := lineNumber st + 1\<rparr>
      in if trim (buffer st1) = [] then st1\<lparr>statementStartLine := lineNumber st1\<rparr>
         else st1)"

definition scan_char :: "'w host \<Rightarrow> 'w run_state \<Rightarrow> char \<Rightarrow> 'w run_state flow" where
  \<comment> \<open>the body of \<open>for (const char of chunk)\<close>; its value is \<open>Proceed\<close> or \<open>Return\<close>\<close>
  "scan_char h st0 c =
     (let st = st0\<lparr>buffer := buffer st0 @ [c]\<rparr>
      in case (if c = CHR '';'' then on_semicolon h st else Proceed st) of
           Return st1 \<Rightarrow> Return st1
         | Continue st1 \<Rightarrow> Proceed st1
         | Proceed st1 \<Rightarrow> Proceed (if c = CHR 0x0A then track_newline st1 else st1))"

fun scan_chunk :: "'w host \<Rightarrow> 'w run_state \<Rightarrow> string \<Rightarrow> 'w run_state flow" where
  \<comment> \<open>\<open>for (const char of chunk)\<close>\<close>
  "scan_chunk h st [] = Proceed st"
| "scan_chunk h st (c # cs) =
     (case scan_char h st c of
        Proceed st1 \<Rightarrow> scan_chunk h st1 cs
      | Continue st1 \<Rightarrow> scan_chunk h st1 cs
      | Return st1 \<Rightarrow> Return st1)"

definition await_stream_in :: "'w host \<Rightarrow> wait \<Rightarrow> 'w run_state \<Rightarrow> 'w run_state" where
  \<comment> \<open>the task is suspended on the stream: the event loop runs\<close>
  "await_stream_in h k st =
     (case await_stream h k (pending st) (exec_context (self st)) of
        (w', ctx') \<Rightarrow> st\<lparr>self := (self st)\<lparr>exec_context := ctx'\<rparr>, pending := w'\<rparr>)"

fun scan_stream ::
  "'w host \<Rightarrow> 'w run_state \<Rightarrow> string list \<Rightarrow> 'w run_state flow \<times> string list" where
  \<comment> \<open>\<open>for await (const chunk of stream)\<close>: every iteration awaits \<open>next()\<close>, and a
      \<open>return\<close> in the body awaits \<open>return()\<close>; how the loop ends, and the chunks it never
      took from the stream\<close>
  "scan_stream h st [] = (Proceed (await_stream_in h NextChunk st), [])"
| "scan_stream h st (chunk # rest) =
     (case scan_chunk h (await_stream_in h NextChunk st) chunk of
        Proceed st1 \<Rightarrow> scan_stream h st1 rest
      | Continue st1 \<Rightarrow> scan_stream h st1 rest
      | Return st1 \<Rightarrow> (Return (await_stream_in h Closing st1), rest))"

definition incomplete_statement :: "'w run_state \<Rightarrow> string \<Rightarrow> 'w run_state" where
  \<comment> \<open>the \<open>else\<close> branch of the flush: the residual text does not parse\<close>
  "incomplete_statement st trimmed =
     (let error = parse_error ''Incomplete statement'' (statementStartLine st);
          st1 = set_finalError error st
      in pushEvent st1
           (Event \<lparr>ev_statement = trimmed, ev_line = statementStartLine st, ev_logs = [],
                   ev_error = Some error\<rparr>))"

definition flush :: "'w host \<Rightarrow> 'w run_state \<Rightarrow> 'w run_state" where
  \<comment> \<open>the remaining buffer after the stream ends\<close>
  "flush h st =
     (let trimmed = trim (buffer st)
      in if trimmed \<noteq> [] \<and> (exec_continueOnError (self st) \<or> finalError st = None) then
           (case parseStatement (createSourceFile h) trimmed (exec_jsx (self st)) of
              Complete sourceFile \<Rightarrow>
                (let bs = extractBindingsFromAST sourceFile
                 in case transpile h (self st) trimmed of
                      Inl msg \<Rightarrow> lowering_failed st trimmed msg
                    | Inr code \<Rightarrow>
                        (let execResult =
                               executeStatement h (self st) (pending st) code bs
                                 (statementStartLine st);
                             st1 = statement_executed st trimmed execResult
                         in case snd (snd (snd execResult)) of
                              Some error \<Rightarrow> set_finalError error st1
                            | None \<Rightarrow> st1))
            | Incomplete \<Rightarrow> incomplete_statement st trimmed)
         else st)"

definition finalize :: "'w run_state \<Rightarrow> 'w run_state" where
  \<comment> \<open>the \<open>finally\<close> block; the result promise resolves with \<open>allLogs\<close>, \<open>finalError\<close>\<close>
  "finalize st = pushEvent (st\<lparr>self := (self st)\<lparr>exec_running := False\<rparr>\<rparr>) Done"

definition initial_state :: "'w host \<Rightarrow> executor \<Rightarrow> 'w run_state" where
  "initial_state h ex =
     \<lparr>self = ex, pending = pending0 h, buffer = [], lineNumber = 1, statementStartLine = 1,
      allLogs = [], finalError = None, eventQueue = []\<rparr>"

definition background_task ::
  "'w host \<Rightarrow> executor \<Rightarrow> string list \<Rightarrow> 'w run_state \<times> string list" where
  \<comment> \<open>the task started by \<open>run\<close>, to its end, on a stream that yields the chunks of a
      finite list and does not fail; the second component is the unread stream\<close>
  "background_task h ex stream =
     (case scan_stream h (initial_state h ex) stream of
        (Return st, unread) \<Rightarrow> (finalize st, unread)
      | (Proceed st, unread) \<Rightarrow> (finalize (flush h st), unread)
      | (Continue st, unread) \<Rightarrow> (finalize (flush h st), unread))"

fun eventGenerator :: "queued_event list \<Rightarrow> execution_event list" where
  \<comment> \<open>what a consumer of \<open>events\<close> is given, up to the \<open>done\<close> item\<close>
  "eventGenerator [] = []"
| "eventGenerator (Event e # q) = e # eventGenerator q"
| "eventGenerator (Done # q) = []"

text \<open>\<open>StreamingRun\<close>: \<open>events\<close> as the list a consumer reads, \<open>result\<close> resolved.\<close>

record streaming_run =
  run_events :: "execution_event list"
  run_result :: execution_result

definition invocation_error :: js_value where
  "invocation_error =
     JHostError RunController ''Error'' ''Cannot call run() while another run is in progress''"

definition run ::
  "'w host \<Rightarrow> executor \<Rightarrow> string list \<Rightarrow> executor \<times> (js_value + streaming_run)" where
  \<comment> \<open>the instance after the call, and what the call throws (\<open>Inl\<close>) or returns, with the
      background task run to its end\<close>
  "run h ex stream =
     (if exec_running ex then (ex, Inl invocation_error)
      else
        (let st = fst (background_task h (ex\<lparr>exec_running := True\<rparr>) stream)
         in (self st,
             Inr \<lparr>run_events = eventGenerator (eventQueue st),
                  run_result = \<lparr>res_logs = allLogs st, res_error = finalError st\<rparr>\<rparr>)))"

subsection \<open>Two small hosts, to run the executor on concrete streams\<close>

text \<open>
  A parser for which a text is incomplete when it ends with \<open>=\<close> or holds an odd number
  of double quotes, and which sees one variable declaration in a text that starts with
  \<open>var\<close>; a transpiler that rejects a text starting with \<open>@\<close>; a VM in which \<open>throw\<close>
  raises an error object of the VM realm, \<open>fail\<close> calls an injected function of the host
  that throws a host \<open>Error\<close> with the message \<open>Execution timeout\<close>, \<open>wait\<close> never
  settles, \<open>print\<close> writes to the console and \<open>var\<close> yields the declared value.

  The event loop holds the output that timers of earlier statements will write. A
  statement starting with \<open>setTimeout\<close>, such as
  \<open>setTimeout(() => console.log(1), 5);\<close>, settles at once and leaves the output \<open>1\<close>
  for later. A statement that suspends for long, one starting with \<open>await\<close> such as
  \<open>await new Promise(r => setTimeout(r, 50));\<close> or the one that never settles, lets the
  timers fire: their \<open>console.log\<close> finds the console installed for the suspended
  statement, so the output is in that statement's logs.

  In \<open>demo_host\<close> the chunks of the stream arrive far apart: the timers fire while the
  task waits for a chunk, and their output reaches no event. In \<open>prompt_host\<close> the
  chunks are all at hand and nothing runs while the task takes the next one.
\<close>

definition demo_createSourceFile :: "string \<Rightarrow> bool \<Rightarrow> source_file" where
  "demo_createSourceFile source jsx =
     \<lparr>parseDiagnostics =
        (if (source \<noteq> [] \<and> last source = CHR ''='')
            \<or> odd (length (filter (\<lambda>c. c = CHR 0x22) source))
         then [''Expression expected.''] else []),
      statements =
        (if take 4 source = ''var '' then
           [VariableStatement [Identifier (takeWhile (\<lambda>c. c \<noteq> CHR '' '') (drop 4 source))]]
         else [OtherStatement])\<rparr>"

definition demo_transformSync :: "string \<Rightarrow> string \<Rightarrow> js_value + string" where
  "demo_transformSync source loader =
     (if take 1 source = ''@'' then Inl (JHostError Foreign ''SyntaxError'' ''Unexpected @'')
      else Inr source)"

definition demo_runInContext ::
  "string \<Rightarrow> vm_context \<Rightarrow> int \<Rightarrow> string list \<Rightarrow> string list script_run" where
  "demo_runInContext wrapped ctx ms w =
     (let code = drop 15 wrapped
      in if take 5 code = ''throw'' then
           \<lparr>sr_outcome = Inr (Some (Rejected (JObject (Some (JString ''boom'')) ''Error: boom''))),
            sr_written = [], sr_context = ctx, sr_pending = w\<rparr>
         else if take 4 code = ''fail'' then
           \<lparr>sr_outcome = Inr (Some (Rejected (JHostError Foreign ''Error'' ''Execution timeout''))),
            sr_written = [], sr_context = ctx, sr_pending = w\<rparr>
         else if take 4 code = ''wait'' then
           \<lparr>sr_outcome = Inr None, sr_written = w, sr_context = ctx, sr_pending = []\<rparr>
         else if take 5 code = ''print'' then
           \<lparr>sr_outcome = Inr (Some (Fulfilled None)), sr_written = [''hi'', [CHR 0x0A]],
            sr_context = ctx, sr_pending = w\<rparr>
         else if take 4 code = ''var '' then
           \<lparr>sr_outcome = Inr (Some (Fulfilled (Some (\<lambda>name. Some (JOther ''1''))))),
            sr_written = [], sr_context = ctx, sr_pending = w\<rparr>
         else if take 10 code = ''setTimeout'' then
           \<lparr>sr_outcome = Inr (Some (Fulfilled None)), sr_written = [], sr_context = ctx,
            sr_pending = w @ [[CHR ''1'', CHR 0x0A]]\<rparr>
         else if take 6 code = ''await '' then
           \<lparr>sr_outcome = Inr (Some (Fulfilled None)), sr_written = w, sr_context = ctx,
            sr_pending = []\<rparr>
         else \<lparr>sr_outcome = Inr (Some (Fulfilled None)), sr_written = [], sr_context = ctx,
               sr_pending = w\<rparr>)"

definition demo_await_stream ::
  "wait \<Rightarrow> string list \<Rightarrow> vm_context \<Rightarrow> string list \<times> vm_context" where
  "demo_await_stream k w ctx = (case k of NextChunk \<Rightarrow> ([], ctx) | Closing \<Rightarrow> (w, ctx))"

definition demo_host :: "string list host" where
  "demo_host =
     \<lparr>createSourceFile = demo_createSourceFile, transformSync = demo_transformSync,
      runInContext = demo_runInContext, await_stream = demo_await_stream, pending0 = []\<rparr>"


subsection \<open>Notions used to state the properties of a run\<close>

text \<open>The first error of a list of events, in the order of the list.\<close>

fun first_error :: "execution_event list \<Rightarrow> execution_error option" where
  "first_error [] = None"
| "first_error (ev # evs) = (case ev_error ev of Some e \<Rightarrow> Some e | None \<Rightarrow> first_error evs)"

text \<open>An event carries an error of its own statement: the error has the event's line.\<close>

definition own_line :: "execution_event \<Rightarrow> bool" where
  "own_line ev = (case ev_error ev of None \<Rightarrow> True | Some e \<Rightarrow> err_line e = ev_line ev)"

text \<open>The settings of an instance, which no statement changes.\<close>

definition settings :: "executor \<Rightarrow> int \<times> bool \<times> bool \<times> bool" where
  "settings ex = (exec_timeout ex, exec_jsx ex, exec_continueOnError ex, exec_running ex)"

text \<open>
  The effect on the variables of the run of one statement that gives the event \<open>ev\<close> and
  leaves the instance as \<open>ex'\<close> and the event loop as \<open>w'\<close>.
\<close>

definition emit ::
  "'w run_state \<Rightarrow> execution_event \<Rightarrow> executor \<Rightarrow> 'w \<Rightarrow> 'w run_state" where
  "emit st ev ex' w' =
     st\<lparr>self := ex', pending := w', allLogs := allLogs st @ ev_logs ev,
        finalError := (case finalError st of None \<Rightarrow> ev_error ev | Some e \<Rightarrow> Some e),
        eventQueue := eventQueue st @ [Event ev]\<rparr>"

text \<open>
  \<open>ev\<close> is an event for the statement in the buffer of \<open>st\<close>, and \<open>ex'\<close> an instance with
  the settings of the one in \<open>st\<close>.
\<close>

definition statement_event :: "'w run_state \<Rightarrow> execution_event \<Rightarrow> executor \<Rightarrow> bool" where
  "statement_event st ev ex' =
     (ev_statement ev = trim (buffer st) \<and> ev_line ev = statementStartLine st
      \<and> own_line ev \<and> settings ex' = settings (self st))"

text \<open>The events in the queue of a run that has not finished.\<close>

definition queued :: "'w run_state \<Rightarrow> execution_event list" where
  "queued st = eventGenerator (eventQueue st)"

text \<open>
  The variables of a run agree with its queue: no \<open>done\<close> item yet, the governing error
  is the first error of the queued events, the logs are theirs, and every queued error
  has the line of its event.
\<close>

definition coherent :: "'w run_state \<Rightarrow> bool" where
  "coherent st =
     (Done \<notin> set (eventQueue st)
      \<and> finalError st = first_error (queued st)
      \<and> allLogs st = concat (map ev_logs (queued st))
      \<and> list_all own_line (queued st))"

fun flow_state :: "'a flow \<Rightarrow> 'a" where
  "flow_state (Proceed st) = st"
| "flow_state (Continue st) = st"
| "flow_state (Return st) = st"

fun returned :: "'a flow \<Rightarrow> bool" where
  "returned (Return st) = True"
| "returned _ = False"

text \<open>
  The variables of a run of a fresh call when the \<open>finally\<close> block is entered: after the
  \<open>return\<close> that ended the loop, or after the flush.
\<close>

definition scanned :: "'w host \<Rightarrow> executor \<Rightarrow> string list \<Rightarrow> 'w run_state flow" where
  \<comment> \<open>how the loop over the stream ends in a fresh call of \<open>run\<close>\<close>
  "scanned h ex stream =
     fst (scan_stream h (initial_state h (ex\<lparr>exec_running := True\<rparr>)) stream)"

definition settled :: "'w host \<Rightarrow> executor \<Rightarrow> string list \<Rightarrow> 'w run_state" where
  "settled h ex stream =
     (if returned (scanned h ex stream) then flow_state (scanned h ex stream)
      else flush h (flow_state (scanned h ex stream)))"

definition unread :: "'w host \<Rightarrow> executor \<Rightarrow> string list \<Rightarrow> string list" where
  \<comment> \<open>the chunks a fresh call of \<open>run\<close> never takes from the stream\<close>
  "unread h ex stream = snd (background_task h (ex\<lparr>exec_running := True\<rparr>) stream)"

text \<open>
  The number of line feeds of a text. A statement starts on line one plus the number of
  line feeds before its first character that is not white space.
\<close>

definition newlines :: "string \<Rightarrow> nat" where
  "newlines s = length (filter (\<lambda>c. c = CHR 0x0A) s)"

definition has_error :: "execution_event \<Rightarrow> bool" where
  "has_error ev = (ev_error ev \<noteq> None)"

text \<open>
  The line counters of a run agree with the text it has read: \<open>n\<close> line feeds in the
  statements already cut off, then the buffer.
\<close>

definition lined :: "nat \<Rightarrow> 'w run_state \<Rightarrow> bool" where
  "lined n st =
     (lineNumber st = 1 + n + newlines (buffer st)
      \<and> statementStartLine st = 1 + n + newlines (takeWhile is_space (buffer st)))"

section \<open>Properties of the parser module\<close>

lemma distinct_iff_count_le_1: "distinct xs \<longleftrightarrow> (\<forall>x. count_list xs x \<le> 1)"
proof (induction xs)
  case Nil
  show ?case by simp
next
  case (Cons a xs)
  have "a \<notin> set xs \<longleftrightarrow> count_list xs a = 0"
    by (simp add: count_list_0_iff)
  with Cons show ?case
    by (auto simp: le_Suc_eq)
qed

lemma count_extractFromBindingName:
  "count_list (extractFromBindingName n) x = name_occurrences x n"
proof (induction n)
  case (Identifier t)
  show ?case by simp
next
  case (ObjectBindingPattern elements)
  then show ?case
    by (simp add: count_list_concat comp_def cong: map_cong)
next
  case (ArrayBindingPattern elements)
  have "count_list (case el of None \<Rightarrow> [] | Some n \<Rightarrow> extractFromBindingName n) x
        = (case el of None \<Rightarrow> 0 | Some n \<Rightarrow> name_occurrences x n)"
    if "el \<in> set elements" for el
  proof (cases el)
    case None
    then show ?thesis by simp
  next
    case (Some n)
    with that have "count_list (extractFromBindingName n) x = name_occurrences x n"
      by (intro ArrayBindingPattern.IH [of el n]) simp_all
    with Some show ?thesis by simp
  qed
  then show ?case
    by (simp add: count_list_concat comp_def cong: map_cong)
qed

lemma count_extract_declarations:
  "count_list (extract_declarations decls vs) x
   = count_list vs x + sum_list (map (name_occurrences x) decls)"
  by (induction decls arbitrary: vs) (simp_all add: count_extractFromBindingName)

lemma count_extract_statement:
  "count_list (allNames (extract_statement s b)) x
   = count_list (allNames b) x + statement_occurrences x s"
  by (cases "(s, b)" rule: extract_statement.cases)
     (simp_all add: allNames_def count_extract_declarations)

lemma count_extract_statements:
  "count_list (allNames (extract_statements ss b)) x
   = count_list (allNames b) x + sum_list (map (statement_occurrences x) ss)"
  by (induction ss arbitrary: b) (simp_all add: count_extract_statement)

text \<open>
  Claim C3, as the code has it. The extracted lists hold one entry for every top-level
  binding occurrence and are never deduplicated: a name appears in them as often as the
  top-level declarations of the statement bind it. So they are free of duplicates
  exactly when no name is bound more than once.
\<close>

theorem bindings_count_occurrences:
  "count_list (allNames (extractBindingsFromAST sf)) x = bound_occurrences x sf
   \<and> (distinct (allNames (extractBindingsFromAST sf)) \<longleftrightarrow> (\<forall>y. bound_occurrences y sf \<le> 1))"
proof -
  have c: "count_list (allNames (extractBindingsFromAST sf)) y = bound_occurrences y sf" for y
    unfolding extractBindingsFromAST_def bound_occurrences_def count_extract_statements
    by (simp add: allNames_def)
  show ?thesis
    by (simp add: distinct_iff_count_le_1 c)
qed

theorem bindings_count_occurrences_witness:
  "count_list
     (allNames (extractBindingsFromAST
        \<lparr>parseDiagnostics = [],
         statements = [VariableStatement
                         [Identifier ''a'', ArrayBindingPattern [None, Some (Identifier ''b'')]],
                       FunctionDeclaration (Some ''f'')]\<rparr>)) ''b'' = 1
   \<and> distinct
     (allNames (extractBindingsFromAST
        \<lparr>parseDiagnostics = [],
         statements = [VariableStatement
                         [Identifier ''a'', ArrayBindingPattern [None, Some (Identifier ''b'')]],
                       FunctionDeclaration (Some ''f'')]\<rparr>))"
proof -
  let ?sf = "\<lparr>parseDiagnostics = [],
              statements = [VariableStatement
                              [Identifier ''a'', ArrayBindingPattern [None, Some (Identifier ''b'')]],
                            FunctionDeclaration (Some ''f'')]\<rparr>"
  have "bound_occurrences y ?sf \<le> 1" for y
    by (auto simp: bound_occurrences_def)
  moreover have "bound_occurrences ''b'' ?sf = 1"
    by (simp add: bound_occurrences_def)
  ultimately show ?thesis
    using bindings_count_occurrences [of ?sf "''b''"] by simp
qed

text \<open>
  Claim C3, as stated, fails: a \<open>var\<close> declaration list that binds \<open>a\<close> twice, and a
  function declaration followed by a \<open>var\<close> of the same name, both give lists with a
  duplicate.
\<close>

theorem bindings_duplicates_counterexample:
  "\<not> distinct (allNames (extractBindingsFromAST
        \<lparr>parseDiagnostics = [],
         statements = [VariableStatement [Identifier ''a'', Identifier ''a'']]\<rparr>))
   \<and> \<not> distinct (allNames (extractBindingsFromAST
        \<lparr>parseDiagnostics = [],
         statements = [FunctionDeclaration (Some ''f''), VariableStatement [Identifier ''f'']]\<rparr>))"
  by (simp add: extractBindingsFromAST_def allNames_def)

section \<open>Properties of the constructor and of the guard\<close>





text \<open>
  Claim C9. A call of \<open>run\<close> on an instance whose running flag is set throws the
  invocation error to the caller: no event and no result are produced for the call, and
  the instance is left as it was, with the flag still set and the context untouched, so
  the run in flight is neither cancelled nor followed by a queued one.
\<close>

theorem run_while_running_throws:
  "exec_running ex \<Longrightarrow> run h ex stream = (ex, Inl invocation_error)"
  by (simp add: run_def)

theorem run_while_running_throws_witness:
  "exec_running ((new_StreamingExecutor None)\<lparr>exec_running := True\<rparr>)
   \<and> run demo_host ((new_StreamingExecutor None)\<lparr>exec_running := True\<rparr>) [''print();'']
     = ((new_StreamingExecutor None)\<lparr>exec_running := True\<rparr>, Inl invocation_error)"
  using run_while_running_throws
    [of "(new_StreamingExecutor None)\<lparr>exec_running := True\<rparr>" demo_host "[''print();'']"]
  by simp

section \<open>Properties of the failure path of a statement\<close>

lemma catch_timeout_iff:
  "err_type (executeStatement_catch e line) = Timeout
   \<longleftrightarrow> (\<exists>cr n. e = JHostError cr n ''Execution timeout'')"
  by (cases e) (auto simp: executeStatement_catch_def)

lemma catch_thrown: "err_thrown (executeStatement_catch e line) = e"
  by (simp add: executeStatement_catch_def)

text \<open>
  Claim C1 at the input where the code leaves it. The statement \<open>fail();\<close> calls an
  injected function of the host that throws a host \<open>Error\<close> with the message
  \<open>Execution timeout\<close>. No timer fired and the thrown object is not the one
  \<open>withTimeout\<close> allocates, yet the event and the result carry the type \<open>timeout\<close>.
\<close>

theorem foreign_error_classified_as_timeout:
  "snd (run demo_host (new_StreamingExecutor None) [''fail();''])
   = Inr \<lparr>run_events =
            [\<lparr>ev_statement = ''fail();'', ev_line = 1, ev_logs = [],
              ev_error = Some \<lparr>err_type = Timeout,
                               err_thrown = JHostError Foreign ''Error'' ''Execution timeout'',
                               err_message = ''Execution timeout'', err_line = 1\<rparr>\<rparr>],
          run_result =
            \<lparr>res_logs = [],
             res_error = Some \<lparr>err_type = Timeout,
                                err_thrown = JHostError Foreign ''Error'' ''Execution timeout'',
                                err_message = ''Execution timeout'', err_line = 1\<rparr>\<rparr>\<rparr>
   \<and> JHostError Foreign ''Error'' ''Execution timeout'' \<noteq> timeout_sentinel"
  by code_simp

text \<open>
  Claim C2, as stated, fails for an instance of the host's \<open>Error\<close> whose message is
  empty: the failure is a runtime error, its message is the empty string, and the
  stringified value is \<open>Error\<close>.
\<close>

theorem empty_message_counterexample:
  "err_type (executeStatement_catch (JHostError Foreign ''Error'' []) 1) = Runtime
   \<and> err_message (executeStatement_catch (JHostError Foreign ''Error'' []) 1) = []
   \<and> err_message (executeStatement_catch (JHostError Foreign ''Error'' []) 1)
       \<noteq> js_String (JHostError Foreign ''Error'' [])"
  by (simp add: executeStatement_catch_def)

lemma executeStatement_error:
  "snd (snd (snd (executeStatement h ex w code bs line))) = Some err
   \<Longrightarrow> \<exists>e. err = executeStatement_catch e line"
  by (auto simp: executeStatement_def Let_def split: settlement.splits sum.splits)

text \<open>
  Claim C2, as the code has it. For a statement that fails at runtime, the message of
  the error is the \<open>message\<close> of the thrown value when that value is an instance of the
  host's \<open>Error\<close>, whatever the message is; for any other object exposing a non-empty
  string message it is that message; otherwise it is the stringification of the thrown
  value.
\<close>

theorem runtime_error_message:
  assumes "snd (snd (snd (executeStatement h ex w code bs line))) = Some err"
    and "err_type err = Runtime"
  shows "(instanceof_Error (err_thrown err)
            \<longrightarrow> err_message err = error_message (err_thrown err))
       \<and> (\<not> instanceof_Error (err_thrown err) \<and> is_object (err_thrown err)
            \<and> message_property (err_thrown err) = JString m \<and> m \<noteq> []
            \<longrightarrow> err_message err = m)
       \<and> (\<not> instanceof_Error (err_thrown err)
            \<and> (\<not> is_object (err_thrown err)
                 \<or> (\<forall>m'. message_property (err_thrown err) = JString m' \<longrightarrow> m' = []))
            \<longrightarrow> err_message err = js_String (err_thrown err))"
proof -
  from executeStatement_error [OF assms(1)] obtain e where e: "err = executeStatement_catch e line"
    by blast
  with assms(2) have m: "err_message err = formatErrorMessage e" and t: "err_thrown err = e"
    by (auto simp: executeStatement_catch_def split: if_splits)
  show ?thesis
    unfolding m t
    by (cases e) (auto split: js_value.splits option.splits)
qed

theorem runtime_error_message_witness:
  "snd (snd (snd (executeStatement demo_host (new_StreamingExecutor None) [] ''throw 1''
               \<lparr>b_variables = [], b_functions = [], b_classes = []\<rparr> 1)))
   = Some \<lparr>err_type = Runtime, err_thrown = JObject (Some (JString ''boom'')) ''Error: boom'',
            err_message = ''boom'', err_line = 1\<rparr>
   \<and> \<not> instanceof_Error (JObject (Some (JString ''boom'')) ''Error: boom'')
   \<and> is_object (JObject (Some (JString ''boom'')) ''Error: boom'')
   \<and> message_property (JObject (Some (JString ''boom'')) ''Error: boom'') = JString ''boom''
   \<and> err_message \<lparr>err_type = Runtime, err_thrown = JObject (Some (JString ''boom'')) ''Error: boom'',
                    err_message = ''boom'', err_line = 1\<rparr> = ''boom''"
proof -
  let ?err = "\<lparr>err_type = Runtime, err_thrown = JObject (Some (JString ''boom'')) ''Error: boom'',
               err_message = ''boom'', err_line = 1\<rparr>"
  have run: "snd (snd (snd (executeStatement demo_host (new_StreamingExecutor None) [] ''throw 1''
                         \<lparr>b_variables = [], b_functions = [], b_classes = []\<rparr> 1))) = Some ?err"
    by code_simp
  have "err_type ?err = Runtime" by simp
  from runtime_error_message [OF run this, of "''boom''"] run show ?thesis by simp
qed

section \<open>Properties of the run controller\<close>

subsection \<open>One statement\<close>

lemma eventGenerator_append:
  "Done \<notin> set q \<Longrightarrow> eventGenerator (q @ q') = eventGenerator q @ eventGenerator q'"
  by (induction q rule: eventGenerator.induct) auto

lemma first_error_append:
  "first_error (a @ b) = (case first_error a of None \<Rightarrow> first_error b | Some e \<Rightarrow> Some e)"
  by (induction a) (auto split: option.splits)

lemma lowering_failed_emit:
  "lowering_failed st t msg =
     emit st \<lparr>ev_statement = t, ev_line = statementStartLine st, ev_logs = [],
             ev_error = Some (parse_error msg (statementStartLine st))\<rparr> (self st)
          (pending st)"
  by (cases "finalError st") (simp_all add: lowering_failed_def emit_def set_finalError_def pushEvent_def Let_def)

lemma incomplete_statement_emit:
  "incomplete_statement st t =
     emit st \<lparr>ev_statement = t, ev_line = statementStartLine st, ev_logs = [],
             ev_error = Some (parse_error ''Incomplete statement'' (statementStartLine st))\<rparr>
          (self st) (pending st)"
  by (cases "finalError st") (simp_all add: incomplete_statement_def emit_def set_finalError_def pushEvent_def Let_def)

lemma statement_executed_emit:
  "(case err of
      Some error \<Rightarrow> set_finalError error (statement_executed st t (ex', w', logs, err))
    | None \<Rightarrow> statement_executed st t (ex', w', logs, err))
   = emit st \<lparr>ev_statement = t, ev_line = statementStartLine st, ev_logs = logs,
              ev_error = err\<rparr> ex' w'"
  by (cases err; cases "finalError st")
     (simp_all add: statement_executed_def emit_def set_finalError_def pushEvent_def)

lemma executeStatement_settings:
  "executeStatement h ex w code bs line = (ex', w', logs, err) \<Longrightarrow> settings ex' = settings ex"
  by (auto simp: executeStatement_def Let_def settings_def split: settlement.splits sum.splits)

lemma executeStatement_line:
  "executeStatement h ex w code bs line = (ex', w', logs, Some e) \<Longrightarrow> err_line e = line"
  by (auto simp: executeStatement_def Let_def executeStatement_catch_def
           split: settlement.splits sum.splits if_splits)

lemma on_semicolon_cases [case_names idle halt step]:
  obtains (idle) "on_semicolon h st = Proceed st"
  | (halt) ev ex' w' where "statement_event st ev ex'" "ev_error ev \<noteq> None"
      "\<not> exec_continueOnError (self st)" "on_semicolon h st = Return (emit st ev ex' w')"
  | (step) ev ex' w' where "statement_event st ev ex'"
      "ev_error ev = None \<or> exec_continueOnError (self st)"
      "on_semicolon h st = Proceed (next_statement (emit st ev ex' w'))
       \<or> on_semicolon h st = Continue (next_statement (emit st ev ex' w'))"
proof (cases "trim (buffer st) = []")
  case True
  then have "on_semicolon h st = Proceed st" by (simp add: on_semicolon_def)
  then show ?thesis by (rule idle)
next
  case nonempty: False
  show ?thesis
  proof (cases "parseStatement (createSourceFile h) (trim (buffer st)) (exec_jsx (self st))")
    case Incomplete
    with nonempty have "on_semicolon h st = Proceed st" by (simp add: on_semicolon_def)
    then show ?thesis by (rule idle)
  next
    case (Complete sourceFile)
    show ?thesis
    proof (cases "transpile h (self st) (trim (buffer st))")
      case (Inl msg)
      let ?ev = "\<lparr>ev_statement = trim (buffer st), ev_line = statementStartLine st,
                  ev_logs = [],
                  ev_error = Some (parse_error msg (statementStartLine st))\<rparr>"
      have ev: "statement_event st ?ev (self st)" "ev_error ?ev \<noteq> None"
        by (simp_all add: statement_event_def own_line_def parse_error_def)
      have os: "on_semicolon h st =
                  (if \<not> exec_continueOnError (self st)
                   then Return (emit st ?ev (self st) (pending st))
                   else Continue (next_statement (emit st ?ev (self st) (pending st))))"
        using nonempty Complete Inl
        by (simp add: on_semicolon_def Let_def lowering_failed_emit)
      show ?thesis
      proof (cases "exec_continueOnError (self st)")
        case True
        with os show ?thesis by (intro step [OF ev(1)]) simp_all
      next
        case False
        with os show ?thesis by (intro halt [OF ev(1) ev(2)]) simp_all
      qed
    next
      case (Inr code)
      obtain ex' w' logs err where
        ex: "executeStatement h (self st) (pending st) code (extractBindingsFromAST sourceFile)
               (statementStartLine st) = (ex', w', logs, err)"
        by (cases "executeStatement h (self st) (pending st) code
               (extractBindingsFromAST sourceFile) (statementStartLine st)") auto
      let ?ev = "\<lparr>ev_statement = trim (buffer st), ev_line = statementStartLine st,
                  ev_logs = logs, ev_error = err\<rparr>"
      have ev: "statement_event st ?ev ex'"
        using executeStatement_settings [OF ex]
          executeStatement_line [of h _ _ _ _ _ ex' w' logs] ex
        by (auto simp: statement_event_def own_line_def split: option.splits)
      show ?thesis
      proof (cases err)
        case None
        have "on_semicolon h st = Proceed (next_statement (emit st ?ev ex' w'))"
          using nonempty Complete Inr ex None
            statement_executed_emit
              [where err = None and st = st and ex' = ex' and w' = w' and logs = logs]
          by (simp add: on_semicolon_def Let_def)
        with None show ?thesis by (intro step [OF ev]) simp_all
      next
        case (Some error)
        have os: "on_semicolon h st =
                    (if \<not> exec_continueOnError (self st) then Return (emit st ?ev ex' w')
                     else Proceed (next_statement (emit st ?ev ex' w')))"
          using nonempty Complete Inr ex Some
            statement_executed_emit
              [where err = "Some error" and st = st and ex' = ex' and w' = w' and logs = logs]
          by (simp add: on_semicolon_def Let_def)
        show ?thesis
        proof (cases "exec_continueOnError (self st)")
          case True
          with os show ?thesis by (intro step [OF ev]) simp_all
        next
          case False
          with os Some show ?thesis by (intro halt [OF ev]) simp_all
        qed
      qed
    qed
  qed
qed

subsection \<open>One character\<close>

lemma scan_char_cases [case_names idle halt step]:
  obtains (idle)
      "scan_char h st c =
         Proceed (if c = CHR 0x0A then track_newline (st\<lparr>buffer := buffer st @ [c]\<rparr>)
                  else st\<lparr>buffer := buffer st @ [c]\<rparr>)"
  | (halt) ev ex' w' where "c = CHR '';''"
      "statement_event (st\<lparr>buffer := buffer st @ [c]\<rparr>) ev ex'"
      "ev_error ev \<noteq> None" "\<not> exec_continueOnError (self st)"
      "scan_char h st c = Return (emit (st\<lparr>buffer := buffer st @ [c]\<rparr>) ev ex' w')"
  | (step) ev ex' w' where "c = CHR '';''"
      "statement_event (st\<lparr>buffer := buffer st @ [c]\<rparr>) ev ex'"
      "ev_error ev = None \<or> exec_continueOnError (self st)"
      "scan_char h st c
         = Proceed (next_statement (emit (st\<lparr>buffer := buffer st @ [c]\<rparr>) ev ex' w'))"
proof (cases "c = CHR '';''")
  case False
  then have "scan_char h st c =
         Proceed (if c = CHR 0x0A then track_newline (st\<lparr>buffer := buffer st @ [c]\<rparr>)
                  else st\<lparr>buffer := buffer st @ [c]\<rparr>)"
    by (simp add: scan_char_def Let_def)
  then show ?thesis by (rule idle)
next
  case semi: True
  let ?st1 = "st\<lparr>buffer := buffer st @ [c]\<rparr>"
  show ?thesis
  proof (cases h ?st1 rule: on_semicolon_cases)
    case idle
    with semi have "scan_char h st c =
         Proceed (if c = CHR 0x0A then track_newline ?st1 else ?st1)"
      by (simp add: scan_char_def Let_def)
    then show ?thesis by (rule that(1))
  next
    case (halt ev ex' w')
    from halt(4) semi have "scan_char h st c = Return (emit ?st1 ev ex' w')"
      by (simp add: scan_char_def Let_def)
    with halt(1,2,3) semi show ?thesis by (intro that(2) [of ev ex' w']) simp_all
  next
    case (step ev ex' w')
    from step(3) semi have "scan_char h st c = Proceed (next_statement (emit ?st1 ev ex' w'))"
      by (auto simp: scan_char_def Let_def)
    with step(1,2) semi show ?thesis by (intro that(3) [of ev ex' w']) simp_all
  qed
qed

lemma queued_emit:
  "Done \<notin> set (eventQueue st) \<Longrightarrow> queued (emit st ev ex' w') = queued st @ [ev]"
  by (simp add: queued_def emit_def eventGenerator_append)

lemma coherent_emit:
  assumes "coherent st" "own_line ev"
  shows "coherent (emit st ev ex' w')"
proof -
  from assms(1) have nd: "Done \<notin> set (eventQueue st)" by (simp add: coherent_def)
  have q: "queued (emit st ev ex' w') = queued st @ [ev]" by (rule queued_emit [OF nd])
  from assms show ?thesis
    unfolding coherent_def q
    by (auto simp: emit_def first_error_append split: option.splits)
qed

lemma coherent_cong:
  "eventQueue st' = eventQueue st \<Longrightarrow> finalError st' = finalError st
   \<Longrightarrow> allLogs st' = allLogs st \<Longrightarrow> coherent st' = coherent st"
  by (simp add: coherent_def queued_def)

lemma coherent_next_statement [simp]: "coherent (next_statement st) = coherent st"
  by (rule coherent_cong) (simp_all add: next_statement_def)

lemma coherent_track_newline [simp]: "coherent (track_newline st) = coherent st"
  by (rule coherent_cong) (simp_all add: track_newline_def Let_def)

lemma coherent_buffer [simp]: "coherent (st\<lparr>buffer := b\<rparr>) = coherent st"
  by (rule coherent_cong) simp_all

lemma track_newline_fields [simp]:
  "eventQueue (track_newline st) = eventQueue st" "self (track_newline st) = self st"
  "buffer (track_newline st) = buffer st" "finalError (track_newline st) = finalError st"
  "allLogs (track_newline st) = allLogs st" "pending (track_newline st) = pending st"
  by (simp_all add: track_newline_def Let_def)

lemma trim_empty_iff: "trim s = [] \<longleftrightarrow> (\<forall>c \<in> set s. is_space c)"
proof -
  have "(\<forall>c \<in> set (dropWhile is_space s). is_space c) \<longleftrightarrow> (\<forall>c \<in> set s. is_space c)"
  proof (cases "dropWhile is_space s = []")
    case True
    then have "\<forall>c \<in> set s. is_space c" by (simp add: dropWhile_eq_Nil_conv)
    then show ?thesis unfolding True by simp
  next
    case False
    then have "\<not> is_space (hd (dropWhile is_space s))" by (rule hd_dropWhile)
    moreover from False have "hd (dropWhile is_space s) \<in> set (dropWhile is_space s)" by simp
    moreover have "set (dropWhile is_space s) \<subseteq> set s" by (rule set_dropWhileD [THEN subsetI])
    ultimately show ?thesis by blast
  qed
  then show ?thesis
    by (simp add: trim_def dropWhile_eq_Nil_conv)
qed

lemma newlines_append [simp]: "newlines (a @ b) = newlines a + newlines b"
  by (simp add: newlines_def)

lemma newlines_Nil [simp]: "newlines [] = 0"
  by (simp add: newlines_def)

lemma newlines_Cons [simp]:
  "newlines (c # s) = (if c = CHR 0x0A then 1 else 0) + newlines s"
  by (simp add: newlines_def)

lemma is_space_newline [simp]: "is_space (CHR 0x0A)"
  by (simp add: is_space_def)

lemma newlines_leading_snoc:
  "c \<noteq> CHR 0x0A
   \<Longrightarrow> newlines (takeWhile is_space (b @ [c])) = newlines (takeWhile is_space b)"
proof (cases "\<forall>x \<in> set b. is_space x")
  case True
  assume c: "c \<noteq> CHR 0x0A"
  from True have tw: "takeWhile is_space b = b" by simp
  from True have "takeWhile is_space (b @ [c]) = b @ takeWhile is_space [c]"
    by (simp add: takeWhile_append2)
  then show ?thesis unfolding tw using c by (simp add: newlines_def)
next
  case False
  then obtain x where "x \<in> set b" "\<not> is_space x" by blast
  then show ?thesis by (simp add: takeWhile_append1)
qed

lemma lined_snoc:
  assumes "lined n st" "c \<noteq> CHR 0x0A"
  shows "lined n (st\<lparr>buffer := buffer st @ [c]\<rparr>)"
  using assms by (simp add: lined_def newlines_leading_snoc)

lemma lined_newline:
  assumes "lined n st"
  shows "lined n (track_newline (st\<lparr>buffer := buffer st @ [CHR 0x0A]\<rparr>))"
proof (cases "\<forall>x \<in> set (buffer st). is_space x")
  case True
  then have "trim (buffer st @ [CHR 0x0A]) = []" by (simp add: trim_empty_iff)
  moreover from True have "takeWhile is_space (buffer st @ [CHR 0x0A]) = buffer st @ [CHR 0x0A]"
    by (simp add: takeWhile_append2)
  moreover from True have "takeWhile is_space (buffer st) = buffer st" by simp
  ultimately show ?thesis
    using assms by (simp add: lined_def track_newline_def Let_def)
next
  case False
  then have "trim (buffer st @ [CHR 0x0A]) \<noteq> []" by (simp add: trim_empty_iff)
  moreover from False obtain x where "x \<in> set (buffer st)" "\<not> is_space x" by blast
  then have "takeWhile is_space (buffer st @ [CHR 0x0A]) = takeWhile is_space (buffer st)"
    by (simp add: takeWhile_append1)
  ultimately show ?thesis
    using assms by (simp add: lined_def track_newline_def Let_def)
qed

lemma lined_next_statement:
  assumes "lined n st"
  shows "lined (n + newlines (buffer st)) (next_statement (emit st ev ex' w'))"
  using assms by (simp add: lined_def next_statement_def emit_def)

text \<open>What one character does to the observable variables of the run.\<close>

lemma scan_char_effect:
  assumes "coherent st"
  shows "coherent (flow_state (scan_char h st c))
    \<and> settings (self (flow_state (scan_char h st c))) = settings (self st)
    \<and> ((queued (flow_state (scan_char h st c)) = queued st
          \<and> \<not> returned (scan_char h st c)
          \<and> buffer (flow_state (scan_char h st c)) = buffer st @ [c]
          \<and> (lined n st \<longrightarrow> lined n (flow_state (scan_char h st c))))
        \<or> (\<exists>ev. queued (flow_state (scan_char h st c)) = queued st @ [ev]
              \<and> ev_statement ev = trim (buffer st @ [c])
              \<and> ev_line ev = statementStartLine st
              \<and> returned (scan_char h st c)
                 = (ev_error ev \<noteq> None \<and> \<not> exec_continueOnError (self st))
              \<and> (returned (scan_char h st c)
                  \<or> (buffer (flow_state (scan_char h st c)) = []
                      \<and> (lined n st
                           \<longrightarrow> lined (n + newlines (buffer st @ [c]))
                                 (flow_state (scan_char h st c)))))))"
proof -
  from assms have nd: "Done \<notin> set (eventQueue st)" by (simp add: coherent_def)
  let ?st1 = "st\<lparr>buffer := buffer st @ [c]\<rparr>"
  have nd1: "Done \<notin> set (eventQueue ?st1)" using nd by simp
  have c1: "coherent ?st1" using assms by simp
  show ?thesis
  proof (cases rule: scan_char_cases [where h = h and st = st and c = c])
    case idle
    have "lined n (if c = CHR 0x0A then track_newline ?st1 else ?st1)" if "lined n st"
      using that lined_newline [of n st] lined_snoc [of n st c] by auto
    with idle show ?thesis
      using assms by (simp add: queued_def)
  next
    case (halt ev ex' w')
    from halt(2) have ev: "own_line ev" "ev_statement ev = trim (buffer st @ [c])"
      "settings ex' = settings (self st)" "ev_line ev = statementStartLine st"
      by (simp_all add: statement_event_def)
    have "queued (emit ?st1 ev ex' w') = queued st @ [ev]"
      using queued_emit [OF nd1] by (simp add: queued_def)
    moreover have "self (emit ?st1 ev ex' w') = ex'" by (simp add: emit_def)
    ultimately show ?thesis
      using halt(3,4,5) ev coherent_emit [OF c1 ev(1)] by simp
  next
    case (step ev ex' w')
    let ?st2 = "next_statement (emit ?st1 ev ex' w')"
    from step(2) have ev: "own_line ev" "ev_statement ev = trim (buffer st @ [c])"
      "settings ex' = settings (self st)" "ev_line ev = statementStartLine st"
      by (simp_all add: statement_event_def)
    have q: "queued ?st2 = queued st @ [ev]"
      using queued_emit [OF nd1] by (simp add: queued_def next_statement_def)
    have s: "self ?st2 = ex'"
      by (simp add: emit_def next_statement_def)
    have b: "buffer ?st2 = []"
      by (simp add: next_statement_def)
    have l: "lined (n + newlines (buffer st @ [c])) ?st2" if "lined n st"
      using lined_next_statement [OF lined_snoc [OF that, of c], of ev ex' w'] step(1)
      by simp
    have co: "coherent ?st2" using coherent_emit [OF c1 ev(1)] by simp
    have r: "returned (scan_char h st c) = (ev_error ev \<noteq> None \<and> \<not> exec_continueOnError (self st))"
      using step(3,4) by auto
    show ?thesis
      unfolding step(4) flow_state.simps
      using q s b l co r ev step(4) by auto
  qed
qed

subsection \<open>The loop over a chunk\<close>

lemma flow_eq_Return: "returned fl \<Longrightarrow> fl = Return (flow_state fl)"
  by (cases fl) simp_all

lemma scan_chunk_Cons:
  "scan_chunk h st (c # cs) =
     (if returned (scan_char h st c) then Return (flow_state (scan_char h st c))
      else scan_chunk h (flow_state (scan_char h st c)) cs)"
  by (cases "scan_char h st c") simp_all

lemma scan_chunk_append:
  "scan_chunk h st (a @ b) =
     (if returned (scan_chunk h st a) then scan_chunk h st a
      else scan_chunk h (flow_state (scan_chunk h st a)) b)"
proof (induction a arbitrary: st)
  case Nil
  show ?case by simp
next
  case (Cons c a)
  show ?case
    by (simp add: scan_chunk_Cons Cons.IH del: scan_chunk.simps)
qed

lemma scan_chunk_coherent:
  assumes "coherent st"
  shows "coherent (flow_state (scan_chunk h st cs))
       \<and> settings (self (flow_state (scan_chunk h st cs))) = settings (self st)"
  using assms
proof (induction cs arbitrary: st)
  case Nil
  then show ?case by simp
next
  case (Cons c cs)
  from scan_char_effect [OF Cons.prems, of h c]
  have c1: "coherent (flow_state (scan_char h st c))"
    and s1: "settings (self (flow_state (scan_char h st c))) = settings (self st)"
    by simp_all
  show ?case
  proof (cases "returned (scan_char h st c)")
    case True
    with c1 s1 show ?thesis by (simp add: scan_chunk_Cons del: scan_chunk.simps)
  next
    case False
    with Cons.IH [OF c1] s1 show ?thesis by (simp add: scan_chunk_Cons del: scan_chunk.simps)
  qed
qed

lemma scan_chunk_stop:
  assumes "coherent st" "\<not> exec_continueOnError (self st)" "finalError st = None"
  shows "(returned (scan_chunk h st cs)
            \<longrightarrow> (\<exists>evs ev. queued (flow_state (scan_chunk h st cs)) = evs @ [ev]
                   \<and> first_error evs = None \<and> ev_error ev \<noteq> None))
       \<and> (\<not> returned (scan_chunk h st cs)
            \<longrightarrow> finalError (flow_state (scan_chunk h st cs)) = None)"
  using assms
proof (induction cs arbitrary: st)
  case Nil
  then show ?case by simp
next
  case (Cons c cs)
  let ?fl = "scan_char h st c"
  from scan_char_effect [OF Cons.prems(1), of h c]
  have c1: "coherent (flow_state ?fl)"
    and s1: "settings (self (flow_state ?fl)) = settings (self st)"
    and eff: "(queued (flow_state ?fl) = queued st \<and> \<not> returned ?fl)
        \<or> (\<exists>ev. queued (flow_state ?fl) = queued st @ [ev]
              \<and> returned ?fl = (ev_error ev \<noteq> None \<and> \<not> exec_continueOnError (self st)))"
    by auto
  from Cons.prems have fe: "first_error (queued st) = None" by (simp add: coherent_def)
  from s1 Cons.prems(2) have nc: "\<not> exec_continueOnError (self (flow_state ?fl))"
    by (simp add: settings_def)
  show ?case
  proof (cases "returned ?fl")
    case True
    with eff obtain ev where "queued (flow_state ?fl) = queued st @ [ev]" "ev_error ev \<noteq> None"
      by auto
    moreover from True have "scan_chunk h st (c # cs) = Return (flow_state ?fl)"
      by (simp add: scan_chunk_Cons del: scan_chunk.simps)
    ultimately show ?thesis
      using fe by (simp del: scan_chunk.simps)
  next
    case False
    with eff Cons.prems(2) fe have "first_error (queued (flow_state ?fl)) = None"
      by (auto simp: first_error_append)
    with c1 have "finalError (flow_state ?fl) = None" by (simp add: coherent_def)
    moreover from False have "scan_chunk h st (c # cs) = scan_chunk h (flow_state ?fl) cs"
      by (simp add: scan_chunk_Cons del: scan_chunk.simps)
    ultimately show ?thesis
      using Cons.IH [OF c1 nc] by (simp del: scan_chunk.simps)
  qed
qed

lemma scan_chunk_returned_error:
  assumes "coherent st" "returned (scan_chunk h st cs)"
  shows "finalError (flow_state (scan_chunk h st cs)) \<noteq> None"
  using assms
proof (induction cs arbitrary: st)
  case Nil
  then show ?case by simp
next
  case (Cons c cs)
  let ?fl = "scan_char h st c"
  from scan_char_effect [OF Cons.prems(1), of h c]
  have c1: "coherent (flow_state ?fl)"
    and eff: "(queued (flow_state ?fl) = queued st \<and> \<not> returned ?fl)
        \<or> (\<exists>ev. queued (flow_state ?fl) = queued st @ [ev]
              \<and> returned ?fl = (ev_error ev \<noteq> None \<and> \<not> exec_continueOnError (self st)))"
    by auto
  show ?case
  proof (cases "returned ?fl")
    case True
    with eff obtain ev where "queued (flow_state ?fl) = queued st @ [ev]" "ev_error ev \<noteq> None"
      by auto
    then have "first_error (queued (flow_state ?fl)) \<noteq> None"
      by (auto simp: first_error_append split: option.splits)
    with c1 have "finalError (flow_state ?fl) \<noteq> None" by (simp add: coherent_def)
    moreover from True have "scan_chunk h st (c # cs) = Return (flow_state ?fl)"
      by (simp add: scan_chunk_Cons del: scan_chunk.simps)
    ultimately show ?thesis by (simp del: scan_chunk.simps)
  next
    case False
    then have sc: "scan_chunk h st (c # cs) = scan_chunk h (flow_state ?fl) cs"
      by (simp add: scan_chunk_Cons del: scan_chunk.simps)
    with Cons.prems(2) have "returned (scan_chunk h (flow_state ?fl) cs)" by simp
    from Cons.IH [OF c1 this] sc show ?thesis by simp
  qed
qed

lemma scan_chunk_segments:
  assumes "coherent st" "lined n st"
  shows "\<exists>segs evs rest. buffer st @ cs = concat segs @ rest
           \<and> queued (flow_state (scan_chunk h st cs)) = queued st @ evs
           \<and> map ev_statement evs = map trim segs
           \<and> (returned (scan_chunk h st cs)
               \<or> (rest = buffer (flow_state (scan_chunk h st cs))
                   \<and> lined (n + newlines (concat segs)) (flow_state (scan_chunk h st cs))))"
  using assms
proof (induction cs arbitrary: st n)
  case Nil
  show ?case
    by (rule exI [of _ "[]"], rule exI [of _ "[]"], rule exI [of _ "buffer st"])
       (simp add: Nil.prems)
next
  case (Cons c cs)
  let ?fl = "scan_char h st c"
  let ?st1 = "flow_state ?fl"
  let ?res = "scan_chunk h st (c # cs)"
  from scan_char_effect [OF Cons.prems(1), of h c n] Cons.prems(2)
  have c1: "coherent ?st1"
    and eff: "(queued ?st1 = queued st \<and> \<not> returned ?fl \<and> buffer ?st1 = buffer st @ [c]
               \<and> lined n ?st1)
        \<or> (\<exists>ev. queued ?st1 = queued st @ [ev] \<and> ev_statement ev = trim (buffer st @ [c])
              \<and> (returned ?fl
                  \<or> (buffer ?st1 = [] \<and> lined (n + newlines (buffer st @ [c])) ?st1)))"
    by auto
  from eff show ?case
  proof
    assume a: "queued ?st1 = queued st \<and> \<not> returned ?fl \<and> buffer ?st1 = buffer st @ [c]
               \<and> lined n ?st1"
    then have sc: "?res = scan_chunk h ?st1 cs"
      by (simp add: scan_chunk_Cons del: scan_chunk.simps)
    from a have l1: "lined n ?st1" by simp
    from Cons.IH [OF c1 l1] obtain segs evs rest where i:
      "buffer ?st1 @ cs = concat segs @ rest"
      "queued (flow_state (scan_chunk h ?st1 cs)) = queued ?st1 @ evs"
      "map ev_statement evs = map trim segs"
      "returned (scan_chunk h ?st1 cs)
       \<or> (rest = buffer (flow_state (scan_chunk h ?st1 cs))
           \<and> lined (n + newlines (concat segs)) (flow_state (scan_chunk h ?st1 cs)))"
      by blast
    have f1: "buffer st @ c # cs = concat segs @ rest" using i(1) a by simp
    have f2: "queued (flow_state ?res) = queued st @ evs" using i(2) a sc by simp
    have f4: "returned ?res
       \<or> (rest = buffer (flow_state ?res) \<and> lined (n + newlines (concat segs)) (flow_state ?res))"
      using i(4) sc by simp
    show ?thesis
      by (rule exI [of _ segs], rule exI [of _ evs], rule exI [of _ rest])
         (intro conjI f1 f2 i(3) f4)
  next
    assume "\<exists>ev. queued ?st1 = queued st @ [ev] \<and> ev_statement ev = trim (buffer st @ [c])
              \<and> (returned ?fl
                  \<or> (buffer ?st1 = [] \<and> lined (n + newlines (buffer st @ [c])) ?st1))"
    then obtain ev where ev: "queued ?st1 = queued st @ [ev]"
      "ev_statement ev = trim (buffer st @ [c])"
      "returned ?fl \<or> (buffer ?st1 = [] \<and> lined (n + newlines (buffer st @ [c])) ?st1)"
      by blast
    show ?thesis
    proof (cases "returned ?fl")
      case True
      then have sc: "?res = Return ?st1"
        by (simp add: scan_chunk_Cons del: scan_chunk.simps)
      have f1: "buffer st @ c # cs = concat [buffer st @ [c]] @ cs" by simp
      have f2: "queued (flow_state ?res) = queued st @ [ev]" using ev(1) sc by simp
      have f3: "map ev_statement [ev] = map trim [buffer st @ [c]]" using ev(2) by simp
      have f4: "returned ?res
         \<or> (cs = buffer (flow_state ?res)
             \<and> lined (n + newlines (concat [buffer st @ [c]])) (flow_state ?res))"
        using sc by simp
      show ?thesis
        by (rule exI [of _ "[buffer st @ [c]]"], rule exI [of _ "[ev]"], rule exI [of _ cs])
           (intro conjI f1 f2 f3 f4)
    next
      case False
      then have sc: "?res = scan_chunk h ?st1 cs"
        by (simp add: scan_chunk_Cons del: scan_chunk.simps)
      from False ev(3) have b: "buffer ?st1 = []"
        and l1: "lined (n + newlines (buffer st @ [c])) ?st1" by simp_all
      from Cons.IH [OF c1 l1] obtain segs evs rest where i:
        "buffer ?st1 @ cs = concat segs @ rest"
        "queued (flow_state (scan_chunk h ?st1 cs)) = queued ?st1 @ evs"
        "map ev_statement evs = map trim segs"
        "returned (scan_chunk h ?st1 cs)
         \<or> (rest = buffer (flow_state (scan_chunk h ?st1 cs))
             \<and> lined (n + newlines (buffer st @ [c]) + newlines (concat segs))
                  (flow_state (scan_chunk h ?st1 cs)))"
        by blast
      have f1: "buffer st @ c # cs = concat ((buffer st @ [c]) # segs) @ rest"
        using i(1) b by simp
      have f2: "queued (flow_state ?res) = queued st @ (ev # evs)"
        using i(2) ev(1) sc by simp
      have f3: "map ev_statement (ev # evs) = map trim ((buffer st @ [c]) # segs)"
        using i(3) ev(2) by simp
      have f4: "returned ?res
         \<or> (rest = buffer (flow_state ?res)
             \<and> lined (n + newlines (concat ((buffer st @ [c]) # segs))) (flow_state ?res))"
        using i(4) sc by (simp add: add.assoc del: scan_chunk.simps)
      show ?thesis
        by (rule exI [of _ "(buffer st @ [c]) # segs"], rule exI [of _ "ev # evs"],
            rule exI [of _ rest])
           (intro conjI f1 f2 f3 f4)
    qed
  qed
qed

subsection \<open>The loop over the stream\<close>

lemma await_fields [simp]:
  "buffer (await_stream_in h k st) = buffer st"
  "lineNumber (await_stream_in h k st) = lineNumber st"
  "statementStartLine (await_stream_in h k st) = statementStartLine st"
  "allLogs (await_stream_in h k st) = allLogs st"
  "finalError (await_stream_in h k st) = finalError st"
  "eventQueue (await_stream_in h k st) = eventQueue st"
  "settings (self (await_stream_in h k st)) = settings (self st)"
  by (simp_all add: await_stream_in_def settings_def split: prod.splits)

lemma await_queued [simp]: "queued (await_stream_in h k st) = queued st"
  by (simp add: queued_def)

lemma await_coherent [simp]: "coherent (await_stream_in h k st) = coherent st"
  by (rule coherent_cong) simp_all

lemma await_lined [simp]: "lined n (await_stream_in h k st) = lined n st"
  by (simp add: lined_def)

lemma await_continueOnError [simp]:
  "exec_continueOnError (self (await_stream_in h k st)) = exec_continueOnError (self st)"
  using await_fields(7) [of h k st] by (simp add: settings_def)

lemma scan_stream_Cons:
  "scan_stream h st (chunk # rest) =
     (if returned (scan_chunk h (await_stream_in h NextChunk st) chunk)
      then (Return (await_stream_in h Closing
                      (flow_state (scan_chunk h (await_stream_in h NextChunk st) chunk))),
            rest)
      else scan_stream h (flow_state (scan_chunk h (await_stream_in h NextChunk st) chunk)) rest)"
  by (cases "scan_chunk h (await_stream_in h NextChunk st) chunk") simp_all

lemma scan_stream_coherent:
  assumes "coherent st"
  shows "coherent (flow_state (fst (scan_stream h st chunks)))
       \<and> settings (self (flow_state (fst (scan_stream h st chunks)))) = settings (self st)"
  using assms
proof (induction chunks arbitrary: st)
  case Nil
  then show ?case by simp
next
  case (Cons chunk chunks)
  let ?fl = "scan_chunk h (await_stream_in h NextChunk st) chunk"
  from Cons.prems have "coherent (await_stream_in h NextChunk st)" by simp
  from scan_chunk_coherent [OF this, of h chunk]
  have c1: "coherent (flow_state ?fl)"
    and s1: "settings (self (flow_state ?fl)) = settings (self st)"
    by simp_all
  show ?case
  proof (cases "returned ?fl")
    case True
    with c1 s1 show ?thesis by (simp add: scan_stream_Cons del: scan_stream.simps)
  next
    case False
    with Cons.IH [OF c1] s1 show ?thesis by (simp add: scan_stream_Cons del: scan_stream.simps)
  qed
qed

lemma scan_stream_stop:
  assumes "coherent st" "\<not> exec_continueOnError (self st)" "finalError st = None"
  shows "(returned (fst (scan_stream h st chunks))
            \<longrightarrow> (\<exists>evs ev. queued (flow_state (fst (scan_stream h st chunks))) = evs @ [ev]
                   \<and> first_error evs = None \<and> ev_error ev \<noteq> None))
       \<and> (\<not> returned (fst (scan_stream h st chunks))
            \<longrightarrow> finalError (flow_state (fst (scan_stream h st chunks))) = None)"
  using assms
proof (induction chunks arbitrary: st)
  case Nil
  then show ?case by simp
next
  case (Cons chunk chunks)
  let ?st0 = "await_stream_in h NextChunk st"
  let ?fl = "scan_chunk h ?st0 chunk"
  from Cons.prems have p: "coherent ?st0" "\<not> exec_continueOnError (self ?st0)"
    "finalError ?st0 = None"
    by simp_all
  note stop = scan_chunk_stop [OF p, of h chunk]
  from scan_chunk_coherent [OF p(1), of h chunk]
  have c1: "coherent (flow_state ?fl)"
    and s1: "settings (self (flow_state ?fl)) = settings (self st)"
    by simp_all
  show ?case
  proof (cases "returned ?fl")
    case True
    with stop show ?thesis by (simp add: scan_stream_Cons del: scan_stream.simps)
  next
    case False
    with stop have f: "finalError (flow_state ?fl) = None" by simp
    from s1 Cons.prems(2) have nc: "\<not> exec_continueOnError (self (flow_state ?fl))"
      by (simp add: settings_def)
    from Cons.IH [OF c1 nc f] False show ?thesis
      by (simp add: scan_stream_Cons del: scan_stream.simps)
  qed
qed

lemma scan_stream_returned_error:
  assumes "coherent st" "returned (fst (scan_stream h st chunks))"
  shows "finalError (flow_state (fst (scan_stream h st chunks))) \<noteq> None"
  using assms
proof (induction chunks arbitrary: st)
  case Nil
  then show ?case by simp
next
  case (Cons chunk chunks)
  let ?st0 = "await_stream_in h NextChunk st"
  let ?fl = "scan_chunk h ?st0 chunk"
  from Cons.prems(1) have p: "coherent ?st0" by simp
  show ?case
  proof (cases "returned ?fl")
    case True
    from scan_chunk_returned_error [OF p True] True show ?thesis
      by (simp add: scan_stream_Cons del: scan_stream.simps)
  next
    case False
    from scan_chunk_coherent [OF p, of h chunk] have c1: "coherent (flow_state ?fl)" by simp
    from False Cons.prems(2) have "returned (fst (scan_stream h (flow_state ?fl) chunks))"
      by (simp add: scan_stream_Cons del: scan_stream.simps)
    from Cons.IH [OF c1 this] False show ?thesis
      by (simp add: scan_stream_Cons del: scan_stream.simps)
  qed
qed

lemma scan_stream_segments:
  assumes "coherent st" "lined n st"
  shows "\<exists>segs evs rest. buffer st @ concat chunks = concat segs @ rest
           \<and> queued (flow_state (fst (scan_stream h st chunks))) = queued st @ evs
           \<and> map ev_statement evs = map trim segs
           \<and> (returned (fst (scan_stream h st chunks))
               \<or> (rest = buffer (flow_state (fst (scan_stream h st chunks)))
                   \<and> lined (n + newlines (concat segs))
                        (flow_state (fst (scan_stream h st chunks)))))"
  using assms
proof (induction chunks arbitrary: st n)
  case Nil
  show ?case
    by (rule exI [of _ "[]"], rule exI [of _ "[]"], rule exI [of _ "buffer st"])
       (simp add: Nil.prems)
next
  case (Cons chunk chunks)
  let ?st0 = "await_stream_in h NextChunk st"
  let ?fl = "scan_chunk h ?st0 chunk"
  let ?st1 = "flow_state ?fl"
  let ?res = "fst (scan_stream h st (chunk # chunks))"
  from Cons.prems have p: "coherent ?st0" "lined n ?st0" by simp_all
  from scan_chunk_segments [OF p, of chunk h] obtain segs1 evs1 rest1 where a:
    "buffer st @ chunk = concat segs1 @ rest1"
    "queued ?st1 = queued st @ evs1"
    "map ev_statement evs1 = map trim segs1"
    "returned ?fl \<or> (rest1 = buffer ?st1 \<and> lined (n + newlines (concat segs1)) ?st1)"
    by auto
  from scan_chunk_coherent [OF p(1), of h chunk] have c1: "coherent ?st1" by simp
  show ?case
  proof (cases "returned ?fl")
    case True
    then have sc: "?res = Return (await_stream_in h Closing ?st1)"
      by (simp add: scan_stream_Cons del: scan_stream.simps)
    have f1: "buffer st @ concat (chunk # chunks) = concat segs1 @ (rest1 @ concat chunks)"
      using a(1) by simp
    have f2: "queued (flow_state ?res) = queued st @ evs1" using a(2) sc by simp
    have f4: "returned ?res
       \<or> (rest1 @ concat chunks = buffer (flow_state ?res)
           \<and> lined (n + newlines (concat segs1)) (flow_state ?res))"
      using sc by simp
    show ?thesis
      by (rule exI [of _ segs1], rule exI [of _ evs1], rule exI [of _ "rest1 @ concat chunks"])
         (intro conjI f1 f2 a(3) f4)
  next
    case False
    then have sc: "?res = fst (scan_stream h ?st1 chunks)"
      by (simp add: scan_stream_Cons del: scan_stream.simps)
    from False a(4) have r1: "rest1 = buffer ?st1"
      and l1: "lined (n + newlines (concat segs1)) ?st1" by simp_all
    from Cons.IH [OF c1 l1] obtain segs evs rest where i:
      "buffer ?st1 @ concat chunks = concat segs @ rest"
      "queued (flow_state (fst (scan_stream h ?st1 chunks))) = queued ?st1 @ evs"
      "map ev_statement evs = map trim segs"
      "returned (fst (scan_stream h ?st1 chunks))
       \<or> (rest = buffer (flow_state (fst (scan_stream h ?st1 chunks)))
           \<and> lined (n + newlines (concat segs1) + newlines (concat segs))
                (flow_state (fst (scan_stream h ?st1 chunks))))"
      by blast
    have "buffer st @ chunk @ concat chunks = concat segs1 @ buffer ?st1 @ concat chunks"
      using a(1) r1 by (metis append.assoc)
    then have f1: "buffer st @ concat (chunk # chunks) = concat (segs1 @ segs) @ rest"
      using i(1) by simp
    have f2: "queued (flow_state ?res) = queued st @ (evs1 @ evs)"
      using i(2) a(2) sc by simp
    have f3: "map ev_statement (evs1 @ evs) = map trim (segs1 @ segs)"
      using i(3) a(3) by simp
    have f4: "returned ?res
       \<or> (rest = buffer (flow_state ?res)
           \<and> lined (n + newlines (concat (segs1 @ segs))) (flow_state ?res))"
      using i(4) sc by (simp add: add.assoc del: scan_stream.simps)
    show ?thesis
      by (rule exI [of _ "segs1 @ segs"], rule exI [of _ "evs1 @ evs"], rule exI [of _ rest])
         (intro conjI f1 f2 f3 f4)
  qed
qed

lemma scan_stream_prefix:
  "returned (fst (scan_stream h st pre))
   \<Longrightarrow> scan_stream h st (pre @ post)
       = (fst (scan_stream h st pre), snd (scan_stream h st pre) @ post)"
proof (induction pre arbitrary: st)
  case Nil
  then show ?case by simp
next
  case (Cons chunk pre)
  let ?fl = "scan_chunk h (await_stream_in h NextChunk st) chunk"
  show ?case
  proof (cases "returned ?fl")
    case True
    then show ?thesis by (simp add: scan_stream_Cons del: scan_stream.simps)
  next
    case False
    with Cons.prems have "returned (fst (scan_stream h (flow_state ?fl) pre))"
      by (simp add: scan_stream_Cons del: scan_stream.simps)
    from Cons.IH [OF this] False show ?thesis
      by (simp add: scan_stream_Cons del: scan_stream.simps)
  qed
qed

lemma scan_stream_same_chunk:
  "returned (fst (scan_stream h st (pre @ [a])))
   \<Longrightarrow> fst (scan_stream h st (pre @ [a @ b])) = fst (scan_stream h st (pre @ [a]))"
proof (induction pre arbitrary: st)
  case Nil
  let ?st0 = "await_stream_in h NextChunk st"
  from Nil have r: "returned (scan_chunk h ?st0 a)"
    by (simp add: scan_stream_Cons del: scan_stream.simps(2) split: if_splits)
  then have "scan_chunk h ?st0 (a @ b) = scan_chunk h ?st0 a"
    by (simp add: scan_chunk_append)
  with r show ?case
    by (simp add: scan_stream_Cons del: scan_stream.simps)
next
  case (Cons chunk pre)
  let ?fl = "scan_chunk h (await_stream_in h NextChunk st) chunk"
  show ?case
  proof (cases "returned ?fl")
    case True
    then show ?thesis by (simp add: scan_stream_Cons del: scan_stream.simps)
  next
    case False
    with Cons.prems have "returned (fst (scan_stream h (flow_state ?fl) (pre @ [a])))"
      by (simp add: scan_stream_Cons del: scan_stream.simps)
    from Cons.IH [OF this] False show ?thesis
      by (simp add: scan_stream_Cons del: scan_stream.simps)
  qed
qed


subsection \<open>The flush and the end of a run\<close>

lemma trim_Nil [simp]: "trim [] = []"
  by (simp add: trim_def)

lemma flush_cases [case_names idle emitted]:
  obtains (idle) "flush h st = st" "trim (buffer st) = [] \<or> finalError st \<noteq> None"
  | (emitted) ev ex' w' where "statement_event st ev ex'" "flush h st = emit st ev ex' w'"
proof (cases "trim (buffer st) \<noteq> [] \<and> (exec_continueOnError (self st) \<or> finalError st = None)")
  case False
  then have "flush h st = st" by (auto simp: flush_def)
  with False show ?thesis by (intro idle) auto
next
  case go: True
  show ?thesis
  proof (cases "parseStatement (createSourceFile h) (trim (buffer st)) (exec_jsx (self st))")
    case Incomplete
    let ?ev = "\<lparr>ev_statement = trim (buffer st), ev_line = statementStartLine st,
                ev_logs = [],
                ev_error = Some (parse_error ''Incomplete statement'' (statementStartLine st))\<rparr>"
    have "statement_event st ?ev (self st)"
      by (simp add: statement_event_def own_line_def parse_error_def)
    moreover have "flush h st = emit st ?ev (self st) (pending st)"
      using go Incomplete by (simp add: flush_def incomplete_statement_emit)
    ultimately show ?thesis by (rule emitted)
  next
    case (Complete sourceFile)
    show ?thesis
    proof (cases "transpile h (self st) (trim (buffer st))")
      case (Inl msg)
      let ?ev = "\<lparr>ev_statement = trim (buffer st), ev_line = statementStartLine st,
                  ev_logs = [],
                  ev_error = Some (parse_error msg (statementStartLine st))\<rparr>"
      have "statement_event st ?ev (self st)"
        by (simp add: statement_event_def own_line_def parse_error_def)
      moreover have "flush h st = emit st ?ev (self st) (pending st)"
        using go Complete Inl by (simp add: flush_def lowering_failed_emit)
      ultimately show ?thesis by (rule emitted)
    next
      case (Inr code)
      obtain ex' w' logs err where
        ex: "executeStatement h (self st) (pending st) code (extractBindingsFromAST sourceFile)
               (statementStartLine st) = (ex', w', logs, err)"
        by (cases "executeStatement h (self st) (pending st) code
               (extractBindingsFromAST sourceFile) (statementStartLine st)") auto
      let ?ev = "\<lparr>ev_statement = trim (buffer st), ev_line = statementStartLine st,
                  ev_logs = logs, ev_error = err\<rparr>"
      have "statement_event st ?ev ex'"
        using executeStatement_settings [OF ex]
          executeStatement_line [of h _ _ _ _ _ ex' w' logs] ex
        by (auto simp: statement_event_def own_line_def split: option.splits)
      moreover have "flush h st = emit st ?ev ex' w'"
      proof (cases err)
        case None
        then show ?thesis
          using go Complete Inr ex
            statement_executed_emit
              [where err = None and st = st and ex' = ex' and w' = w' and logs = logs]
          by (simp add: flush_def Let_def)
      next
        case (Some error)
        then show ?thesis
          using go Complete Inr ex
            statement_executed_emit
              [where err = "Some error" and st = st and ex' = ex' and w' = w' and logs = logs]
          by (simp add: flush_def Let_def)
      qed
      ultimately show ?thesis by (rule emitted)
    qed
  qed
qed

lemma flush_incomplete:
  assumes "trim (buffer st) \<noteq> []"
    and "exec_continueOnError (self st) \<or> finalError st = None"
    and "parseStatement (createSourceFile h) (trim (buffer st)) (exec_jsx (self st)) = Incomplete"
  shows "flush h st =
     emit st \<lparr>ev_statement = trim (buffer st), ev_line = statementStartLine st, ev_logs = [],
              ev_error = Some (parse_error ''Incomplete statement'' (statementStartLine st))\<rparr>
       (self st) (pending st)"
  using assms by (simp add: flush_def incomplete_statement_emit)

lemma coherent_initial: "coherent (initial_state h ex)"
  by (simp add: coherent_def initial_state_def queued_def)

lemma lined_initial: "lined 0 (initial_state h ex)"
  by (simp add: lined_def initial_state_def newlines_def)

lemma initial_fields [simp]:
  "self (initial_state h ex) = ex" "buffer (initial_state h ex) = []"
  "finalError (initial_state h ex) = None" "queued (initial_state h ex) = []"
  by (simp_all add: initial_state_def queued_def)

lemma flush_coherent:
  assumes "coherent st"
  shows "coherent (flush h st) \<and> settings (self (flush h st)) = settings (self st)"
proof (cases rule: flush_cases [where h = h and st = st])
  case idle
  with assms show ?thesis by simp
next
  case (emitted ev ex' w')
  then show ?thesis
    using coherent_emit [OF assms, of ev ex' w']
    by (simp add: statement_event_def) (simp add: emit_def)
qed

lemma scanned_coherent:
  "coherent (flow_state (scanned h ex stream))"
  "settings (self (flow_state (scanned h ex stream))) = settings (ex\<lparr>exec_running := True\<rparr>)"
  unfolding scanned_def
  using scan_stream_coherent
    [where st = "initial_state h (ex\<lparr>exec_running := True\<rparr>)" and h = h and chunks = stream,
     OF coherent_initial]
  by simp_all

lemma scanned_stop:
  assumes "\<not> exec_continueOnError ex"
  shows "(returned (scanned h ex stream)
            \<longrightarrow> (\<exists>evs ev. queued (flow_state (scanned h ex stream)) = evs @ [ev]
                   \<and> first_error evs = None \<and> ev_error ev \<noteq> None))
       \<and> (\<not> returned (scanned h ex stream)
            \<longrightarrow> finalError (flow_state (scanned h ex stream)) = None)"
  unfolding scanned_def
  by (rule scan_stream_stop [OF coherent_initial]) (simp_all add: assms)

lemma scanned_segments:
  assumes "\<not> returned (scanned h ex stream)"
  shows "\<exists>segs. concat stream = concat segs @ buffer (flow_state (scanned h ex stream))
           \<and> map ev_statement (queued (flow_state (scanned h ex stream))) = map trim segs
           \<and> lined (newlines (concat segs)) (flow_state (scanned h ex stream))"
proof -
  from scan_stream_segments
    [where st = "initial_state h (ex\<lparr>exec_running := True\<rparr>)" and h = h and chunks = stream,
     OF coherent_initial lined_initial] assms
  obtain segs evs rest where
    "concat stream = concat segs @ rest"
    "queued (flow_state (scanned h ex stream)) = evs"
    "map ev_statement evs = map trim segs"
    "rest = buffer (flow_state (scanned h ex stream))"
    "lined (newlines (concat segs)) (flow_state (scanned h ex stream))"
    by (auto simp: scanned_def)
  then have "concat stream = concat segs @ buffer (flow_state (scanned h ex stream))
           \<and> map ev_statement (queued (flow_state (scanned h ex stream))) = map trim segs
           \<and> lined (newlines (concat segs)) (flow_state (scanned h ex stream))"
    by simp
  then show ?thesis by (rule exI)
qed

lemma settled_coherent: "coherent (settled h ex stream)"
  using scanned_coherent(1) [of h ex stream]
    flush_coherent [OF scanned_coherent(1), of h h ex stream]
  by (simp add: settled_def)

lemma background_task_fst:
  "fst (background_task h ex stream) =
     finalize
       (if returned (fst (scan_stream h (initial_state h ex) stream))
        then flow_state (fst (scan_stream h (initial_state h ex) stream))
        else flush h (flow_state (fst (scan_stream h (initial_state h ex) stream))))"
  by (cases "scan_stream h (initial_state h ex) stream";
      cases "fst (scan_stream h (initial_state h ex) stream)")
     (simp_all add: background_task_def)

lemma run_settled:
  assumes "\<not> exec_running ex"
  shows "run h ex stream =
     ((self (settled h ex stream))\<lparr>exec_running := False\<rparr>,
      Inr \<lparr>run_events = queued (settled h ex stream),
           run_result = \<lparr>res_logs = allLogs (settled h ex stream),
                         res_error = finalError (settled h ex stream)\<rparr>\<rparr>)"
proof -
  have nd: "Done \<notin> set (eventQueue (settled h ex stream))"
    using settled_coherent [of h ex stream] by (simp add: coherent_def)
  have fin: "fst (background_task h (ex\<lparr>exec_running := True\<rparr>) stream)
             = finalize (settled h ex stream)"
    by (simp add: background_task_fst settled_def scanned_def)
  have "eventGenerator (eventQueue (finalize (settled h ex stream))) = queued (settled h ex stream)"
    using eventGenerator_append [OF nd, of "[Done]"]
    by (simp add: finalize_def pushEvent_def queued_def)
  then show ?thesis
    using assms by (simp add: run_def fin Let_def) (simp add: finalize_def pushEvent_def)
qed

subsection \<open>Runs\<close>

lemma run_scanned:
  "scanned h ex stream1 = scanned h ex stream2 \<Longrightarrow> run h ex stream1 = run h ex stream2"
  by (simp add: run_def background_task_fst scanned_def)

lemma run_Inr: "snd (run h ex stream) = Inr r \<Longrightarrow> \<not> exec_running ex"
  by (auto simp: run_def split: if_splits)

lemma first_error_None_iff:
  "first_error evs = None \<longleftrightarrow> list_all (\<lambda>ev. ev_error ev = None) evs"
  by (induction evs) (auto split: option.splits)

lemma first_error_decomp:
  "first_error evs = Some e \<Longrightarrow>
     \<exists>a ev b. evs = a @ ev # b \<and> list_all (\<lambda>x. ev_error x = None) a \<and> ev_error ev = Some e"
proof (induction evs)
  case Nil
  then show ?case by simp
next
  case (Cons x evs)
  show ?case
  proof (cases "ev_error x")
    case None
    with Cons obtain a ev b where
      "evs = a @ ev # b" "list_all (\<lambda>x. ev_error x = None) a" "ev_error ev = Some e"
      by auto
    with None have "x # evs = (x # a) @ ev # b \<and> list_all (\<lambda>x. ev_error x = None) (x # a)
        \<and> ev_error ev = Some e" by simp
    then show ?thesis by blast
  next
    case (Some e')
    with Cons.prems have "x # evs = [] @ x # evs \<and> list_all (\<lambda>x. ev_error x = None) []
        \<and> ev_error x = Some e" by simp
    then show ?thesis by blast
  qed
qed

lemma first_error_butlast: "first_error evs = None \<Longrightarrow> first_error (butlast evs) = None"
  by (induction evs) (auto split: option.splits)

lemma error_event_returned:
  assumes "\<not> exec_continueOnError ex"
    and "list_ex has_error (queued (flow_state (scanned h ex stream)))"
  shows "returned (scanned h ex stream)"
proof (rule ccontr)
  assume "\<not> returned (scanned h ex stream)"
  with scanned_stop [OF assms(1), of h stream]
  have "finalError (flow_state (scanned h ex stream)) = None" by simp
  with scanned_coherent(1) [of h ex stream]
  have "first_error (queued (flow_state (scanned h ex stream))) = None"
    by (simp add: coherent_def)
  then have "list_all (\<lambda>ev. ev_error ev = None) (queued (flow_state (scanned h ex stream)))"
    by (simp add: first_error_None_iff)
  with assms(2) show False
    by (auto simp: list_all_iff list_ex_iff has_error_def)
qed

lemma settled_errors_last:
  assumes "\<not> exec_continueOnError ex"
  shows "first_error (butlast (queued (settled h ex stream))) = None"
proof (cases "returned (scanned h ex stream)")
  case True
  with scanned_stop [OF assms, of h stream] obtain evs ev where
    "queued (flow_state (scanned h ex stream)) = evs @ [ev]" "first_error evs = None"
    by blast
  with True show ?thesis by (simp add: settled_def)
next
  case False
  let ?st = "flow_state (scanned h ex stream)"
  from False scanned_stop [OF assms, of h stream] have "finalError ?st = None" by simp
  with scanned_coherent(1) [of h ex stream]
  have fe: "first_error (queued ?st) = None" and nd: "Done \<notin> set (eventQueue ?st)"
    by (simp_all add: coherent_def)
  show ?thesis
  proof (cases rule: flush_cases [where h = h and st = ?st])
    case idle
    with False fe show ?thesis by (simp add: settled_def first_error_butlast)
  next
    case (emitted ev ex' w')
    with False fe queued_emit [OF nd, of ev ex' w'] show ?thesis
      by (simp add: settled_def)
  qed
qed

subsection \<open>Chunking\<close>




subsection \<open>The governing error\<close>

text \<open>
  When the failure of every statement is caught and formatted, which is so for the
  thrown values of \<^typ>\<open>js_value\<close>, the error of the result is the error of the first
  event that carries one, and every error has the line of its event.
\<close>

lemma first_error_governs:
  assumes "snd (run h ex stream) = Inr r"
    and "list_ex has_error (run_events r)"
  shows "(\<exists>evs ev rest. run_events r = evs @ ev # rest
            \<and> list_all (\<lambda>e. ev_error e = None) evs \<and> has_error ev
            \<and> res_error (run_result r) = ev_error ev)
       \<and> list_all own_line (run_events r)"
proof -
  let ?st = "settled h ex stream"
  from assms(1) have nr: "\<not> exec_running ex" by (rule run_Inr)
  from assms(1) run_settled [OF nr, of h stream]
  have r: "run_events r = queued ?st" "res_error (run_result r) = finalError ?st"
    by auto
  have co: "coherent ?st" by (rule settled_coherent)
  then have fe: "finalError ?st = first_error (queued ?st)" and ol: "list_all own_line (queued ?st)"
    by (simp_all add: coherent_def)
  from assms(2) have "\<not> list_all (\<lambda>ev. ev_error ev = None) (run_events r)"
    by (auto simp: list_ex_iff list_all_iff has_error_def)
  then obtain e where e: "first_error (run_events r) = Some e"
    using first_error_None_iff [of "run_events r"] by auto
  from first_error_decomp [OF e] obtain a ev b where d:
    "run_events r = a @ ev # b" "list_all (\<lambda>x. ev_error x = None) a" "ev_error ev = Some e"
    by blast
  have "run_events r = a @ ev # b \<and> list_all (\<lambda>e. ev_error e = None) a \<and> has_error ev
        \<and> res_error (run_result r) = ev_error ev"
    using d e r fe by (simp add: has_error_def)
  then have "\<exists>evs ev rest. run_events r = evs @ ev # rest
            \<and> list_all (\<lambda>e. ev_error e = None) evs \<and> has_error ev
            \<and> res_error (run_result r) = ev_error ev"
    by (intro exI)
  with ol r show ?thesis by simp
qed

subsection \<open>The stop at the first error\<close>

text \<open>
  Claim C6. Under the default policy no event before the last one of a run carries an
  error, whether the error comes from a statement or from the flush: nothing is emitted
  after the first error. And once the scan of a prefix \<open>pre\<close> of the stream has queued an
  error event, whatever follows is without effect: the run on \<open>pre @ post\<close> gives the
  events, the result and the instance, context included, of the run on \<open>pre\<close>, and the
  chunks of \<open>post\<close> are all left unread in the stream; so is a text \<open>b\<close> that follows in
  the last chunk of \<open>pre\<close> itself.
\<close>

theorem stop_on_error:
  assumes "\<not> exec_continueOnError ex"
    and "snd (run h ex (pre @ post)) = Inr r"
  shows "first_error (butlast (run_events r)) = None
       \<and> (list_ex has_error (queued (flow_state (scanned h ex pre)))
            \<longrightarrow> run h ex (pre @ post) = run h ex pre
                \<and> unread h ex (pre @ post) = unread h ex pre @ post)
       \<and> (list_ex has_error (queued (flow_state (scanned h ex pre)))
            \<longrightarrow> (\<forall>b. run h ex (butlast pre @ [last pre @ b]) = run h ex pre))"
proof (intro conjI)
  from assms(2) have nr: "\<not> exec_running ex" by (rule run_Inr)
  from assms(2) run_settled [OF nr, of h "pre @ post"]
  have "run_events r = queued (settled h ex (pre @ post))" by auto
  then show "first_error (butlast (run_events r)) = None"
    by (simp add: settled_errors_last [OF assms(1)])
next
  show "list_ex has_error (queued (flow_state (scanned h ex pre)))
            \<longrightarrow> run h ex (pre @ post) = run h ex pre
                \<and> unread h ex (pre @ post) = unread h ex pre @ post"
  proof
    assume "list_ex has_error (queued (flow_state (scanned h ex pre)))"
    then have "returned (scanned h ex pre)"
      by (rule error_event_returned [OF assms(1)])
    then have "scan_stream h (initial_state h (ex\<lparr>exec_running := True\<rparr>)) (pre @ post)
      = (fst (scan_stream h (initial_state h (ex\<lparr>exec_running := True\<rparr>)) pre),
         snd (scan_stream h (initial_state h (ex\<lparr>exec_running := True\<rparr>)) pre) @ post)"
      by (simp add: scan_stream_prefix scanned_def)
    then have "background_task h (ex\<lparr>exec_running := True\<rparr>) (pre @ post)
      = (fst (background_task h (ex\<lparr>exec_running := True\<rparr>) pre),
         snd (background_task h (ex\<lparr>exec_running := True\<rparr>) pre) @ post)"
      by (simp add: background_task_def split: prod.splits flow.splits)
    then show "run h ex (pre @ post) = run h ex pre
                \<and> unread h ex (pre @ post) = unread h ex pre @ post"
      by (simp add: run_def unread_def)
  qed
next
  show "list_ex has_error (queued (flow_state (scanned h ex pre)))
            \<longrightarrow> (\<forall>b. run h ex (butlast pre @ [last pre @ b]) = run h ex pre)"
  proof (intro impI allI)
    fix b
    assume "list_ex has_error (queued (flow_state (scanned h ex pre)))"
    then have ret: "returned (scanned h ex pre)"
      by (rule error_event_returned [OF assms(1)])
    then have ne: "pre \<noteq> []" by (auto simp: scanned_def)
    then have p: "butlast pre @ [last pre] = pre" by simp
    from ret have
      "returned (fst (scan_stream h (initial_state h (ex\<lparr>exec_running := True\<rparr>))
                        (butlast pre @ [last pre])))"
      by (simp only: p scanned_def)
    from scan_stream_same_chunk [OF this, of b]
    have "scanned h ex (butlast pre @ [last pre @ b]) = scanned h ex pre"
      by (simp only: p scanned_def)
    then show "run h ex (butlast pre @ [last pre @ b]) = run h ex pre"
      by (rule run_scanned)
  qed
qed

theorem stop_on_error_witness:
  "\<not> exec_continueOnError (new_StreamingExecutor None)
   \<and> snd (run demo_host (new_StreamingExecutor None)
             ([''var x = 1; throw 2;''] @ ['' var y = 3;'', ''print();'']))
     = Inr \<lparr>run_events =
              [\<lparr>ev_statement = ''var x = 1;'', ev_line = 1, ev_logs = [], ev_error = None\<rparr>,
               \<lparr>ev_statement = ''throw 2;'', ev_line = 1, ev_logs = [],
                ev_error = Some \<lparr>err_type = Runtime,
                                 err_thrown = JObject (Some (JString ''boom'')) ''Error: boom'',
                                 err_message = ''boom'', err_line = 1\<rparr>\<rparr>],
            run_result =
              \<lparr>res_logs = [],
               res_error = Some \<lparr>err_type = Runtime,
                                  err_thrown = JObject (Some (JString ''boom'')) ''Error: boom'',
                                  err_message = ''boom'', err_line = 1\<rparr>\<rparr>\<rparr>
   \<and> list_ex has_error
        (queued (flow_state (scanned demo_host (new_StreamingExecutor None)
                               [''var x = 1; throw 2;''])))
   \<and> run demo_host (new_StreamingExecutor None)
         ([''var x = 1; throw 2;''] @ ['' var y = 3;'', ''print();''])
     = run demo_host (new_StreamingExecutor None) [''var x = 1; throw 2;'']
   \<and> unread demo_host (new_StreamingExecutor None)
         ([''var x = 1; throw 2;''] @ ['' var y = 3;'', ''print();''])
     = unread demo_host (new_StreamingExecutor None) [''var x = 1; throw 2;'']
       @ ['' var y = 3;'', ''print();'']
   \<and> unread demo_host (new_StreamingExecutor None)
         ([''var x = 1; throw 2;''] @ ['' var y = 3;'', ''print();''])
     = ['' var y = 3;'', ''print();'']
   \<and> exec_context
        (fst (run demo_host (new_StreamingExecutor None)
                ([''var x = 1; throw 2;''] @ ['' var y = 3;'', ''print();''])))
        ''x'' = Some (Value (JOther ''1''))
   \<and> exec_context
        (fst (run demo_host (new_StreamingExecutor None)
                ([''var x = 1; throw 2;''] @ ['' var y = 3;'', ''print();''])))
        ''y'' = None
   \<and> run demo_host (new_StreamingExecutor None) [''var x = 1; throw 2; var y = 3; print();'']
     = run demo_host (new_StreamingExecutor None) [''var x = 1; throw 2;'']
   \<and> exec_context
        (fst (run demo_host (new_StreamingExecutor None)
                [''var x = 1; throw 2; var y = 3; print();'']))
        ''y'' = None"
proof -
  let ?ex = "new_StreamingExecutor None"
  let ?pre = "[''var x = 1; throw 2;'']"
  let ?post = "['' var y = 3;'', ''print();'']"
  let ?r = "\<lparr>run_events =
              [\<lparr>ev_statement = ''var x = 1;'', ev_line = 1, ev_logs = [], ev_error = None\<rparr>,
               \<lparr>ev_statement = ''throw 2;'', ev_line = 1, ev_logs = [],
                ev_error = Some \<lparr>err_type = Runtime,
                                 err_thrown = JObject (Some (JString ''boom'')) ''Error: boom'',
                                 err_message = ''boom'', err_line = 1\<rparr>\<rparr>],
            run_result =
              \<lparr>res_logs = [],
               res_error = Some \<lparr>err_type = Runtime,
                                  err_thrown = JObject (Some (JString ''boom'')) ''Error: boom'',
                                  err_message = ''boom'', err_line = 1\<rparr>\<rparr>\<rparr>"
  have h1: "\<not> exec_continueOnError ?ex" by code_simp
  have h2: "snd (run demo_host ?ex (?pre @ ?post)) = Inr ?r" by code_simp
  have h3: "list_ex has_error (queued (flow_state (scanned demo_host ?ex ?pre)))" by code_simp
  have x: "exec_context (fst (run demo_host ?ex (?pre @ ?post))) ''x'' = Some (Value (JOther ''1''))"
    by code_simp
  have y: "exec_context (fst (run demo_host ?ex (?pre @ ?post))) ''y'' = None"
    by code_simp
  note stop = stop_on_error [OF h1 h2]
  from stop h3
  have "run demo_host ?ex (?pre @ ?post) = run demo_host ?ex ?pre
        \<and> unread demo_host ?ex (?pre @ ?post) = unread demo_host ?ex ?pre @ ?post"
    by blast
  then have a: "run demo_host ?ex (?pre @ ?post) = run demo_host ?ex ?pre"
    and b: "unread demo_host ?ex (?pre @ ?post) = unread demo_host ?ex ?pre @ ?post"
    by blast+
  have "unread demo_host ?ex ?pre = []" by code_simp
  with b have u: "unread demo_host ?ex (?pre @ ?post) = ?post" by simp
  from stop h3
  have "\<forall>b. run demo_host ?ex (butlast ?pre @ [last ?pre @ b]) = run demo_host ?ex ?pre"
    by blast
  then have "run demo_host ?ex (butlast ?pre @ [last ?pre @ '' var y = 3; print();''])
             = run demo_host ?ex ?pre"
    by (rule spec)
  then have s: "run demo_host ?ex [''var x = 1; throw 2; var y = 3; print();'']
             = run demo_host ?ex ?pre"
    by simp
  have "exec_context (fst (run demo_host ?ex ?pre)) ''y'' = None" by code_simp
  with s have sy: "exec_context
        (fst (run demo_host ?ex [''var x = 1; throw 2; var y = 3; print();''])) ''y'' = None"
    by simp
  from h1 h2 h3 a b u x y s sy show ?thesis by (intro conjI)
qed

subsection \<open>The residual text\<close>

text \<open>
  Claim C7. When the loop has read the stream to its end and the trimmed buffer is not
  empty and does not parse, the run emits, after the events of the loop, exactly one
  event for that text: a parse error with the message \<open>Incomplete statement\<close>, empty
  logs and the start line of the statement. The error of the result is that error when
  the loop left none, and the earlier error otherwise. The start line is the line of
  the first character of the residual text that is not white space: the source is the
  segments of the events of the loop followed by the buffer, and the line is one plus
  the number of line feeds of the source before that character.
\<close>

theorem incomplete_residual:
  assumes "\<not> exec_running ex"
    and "\<not> returned (scanned h ex stream)"
    and "trim (buffer (flow_state (scanned h ex stream))) \<noteq> []"
    and "parseStatement (createSourceFile h) (trim (buffer (flow_state (scanned h ex stream))))
           (exec_jsx ex) = Incomplete"
  shows "run h ex stream =
     ((self (flow_state (scanned h ex stream)))\<lparr>exec_running := False\<rparr>,
      Inr \<lparr>run_events =
             queued (flow_state (scanned h ex stream))
             @ [\<lparr>ev_statement = trim (buffer (flow_state (scanned h ex stream))),
                 ev_line = statementStartLine (flow_state (scanned h ex stream)),
                 ev_logs = [],
                 ev_error =
                   Some \<lparr>err_type = Parse,
                         err_thrown = JHostError RunController ''Error'' ''Incomplete statement'',
                         err_message = ''Incomplete statement'',
                         err_line = statementStartLine (flow_state (scanned h ex stream))\<rparr>\<rparr>],
           run_result =
             \<lparr>res_logs = allLogs (flow_state (scanned h ex stream)),
              res_error =
                (case finalError (flow_state (scanned h ex stream)) of
                   None \<Rightarrow>
                     Some \<lparr>err_type = Parse,
                           err_thrown = JHostError RunController ''Error'' ''Incomplete statement'',
                           err_message = ''Incomplete statement'',
                           err_line = statementStartLine (flow_state (scanned h ex stream))\<rparr>
                 | Some e \<Rightarrow> Some e)\<rparr>\<rparr>)
     \<and> (\<exists>segs. concat stream = concat segs @ buffer (flow_state (scanned h ex stream))
           \<and> map ev_statement (queued (flow_state (scanned h ex stream))) = map trim segs
           \<and> statementStartLine (flow_state (scanned h ex stream))
             = 1 + newlines (concat segs
                             @ takeWhile is_space (buffer (flow_state (scanned h ex stream)))))"
proof
  let ?st = "flow_state (scanned h ex stream)"
  let ?ev = "\<lparr>ev_statement = trim (buffer ?st), ev_line = statementStartLine ?st, ev_logs = [],
              ev_error = Some (parse_error ''Incomplete statement'' (statementStartLine ?st))\<rparr>"
  have set: "exec_jsx (self ?st) = exec_jsx ex"
    "exec_continueOnError (self ?st) = exec_continueOnError ex"
    using scanned_coherent(2) [of h ex stream] by (simp_all add: settings_def)
  have nd: "Done \<notin> set (eventQueue ?st)"
    using scanned_coherent(1) [of h ex stream] by (simp add: coherent_def)
  have "exec_continueOnError (self ?st) \<or> finalError ?st = None"
    using scanned_stop [of ex h stream] assms(2) set(2) by auto
  with assms(3,4) set(1) have "flush h ?st = emit ?st ?ev (self ?st) (pending ?st)"
    by (intro flush_incomplete) simp_all
  with assms(2) have s: "settled h ex stream = emit ?st ?ev (self ?st) (pending ?st)"
    by (simp add: settled_def)
  show "run h ex stream =
     ((self ?st)\<lparr>exec_running := False\<rparr>,
      Inr \<lparr>run_events =
             queued ?st
             @ [\<lparr>ev_statement = trim (buffer ?st),
                 ev_line = statementStartLine ?st,
                 ev_logs = [],
                 ev_error =
                   Some \<lparr>err_type = Parse,
                         err_thrown = JHostError RunController ''Error'' ''Incomplete statement'',
                         err_message = ''Incomplete statement'',
                         err_line = statementStartLine ?st\<rparr>\<rparr>],
           run_result =
             \<lparr>res_logs = allLogs ?st,
              res_error =
                (case finalError ?st of
                   None \<Rightarrow>
                     Some \<lparr>err_type = Parse,
                           err_thrown = JHostError RunController ''Error'' ''Incomplete statement'',
                           err_message = ''Incomplete statement'',
                           err_line = statementStartLine ?st\<rparr>
                 | Some e \<Rightarrow> Some e)\<rparr>\<rparr>)"
    unfolding run_settled [OF assms(1)] s queued_emit [OF nd]
    by (simp add: emit_def parse_error_def split: option.splits)
  from scanned_segments [OF assms(2)] obtain segs where seg:
    "concat stream = concat segs @ buffer ?st"
    "map ev_statement (queued ?st) = map trim segs"
    "lined (newlines (concat segs)) ?st"
    by blast
  from seg(3) have "statementStartLine ?st
      = 1 + newlines (concat segs @ takeWhile is_space (buffer ?st))"
    by (simp add: lined_def newlines_append)
  with seg(1,2) have "concat stream = concat segs @ buffer ?st
           \<and> map ev_statement (queued ?st) = map trim segs
           \<and> statementStartLine ?st
             = 1 + newlines (concat segs @ takeWhile is_space (buffer ?st))"
    by simp
  then show "\<exists>segs. concat stream = concat segs @ buffer ?st
           \<and> map ev_statement (queued ?st) = map trim segs
           \<and> statementStartLine ?st
             = 1 + newlines (concat segs @ takeWhile is_space (buffer ?st))"
    by (rule exI)
qed

theorem incomplete_residual_witness:
  "\<not> exec_running (new_StreamingExecutor None)
   \<and> \<not> returned (scanned demo_host (new_StreamingExecutor None)
                    [''print();'' @ [CHR 0x0A], [CHR 0x0A] @ ''  var x ='', '' ''])
   \<and> buffer (flow_state (scanned demo_host (new_StreamingExecutor None)
                            [''print();'' @ [CHR 0x0A], [CHR 0x0A] @ ''  var x ='', '' '']))
     = [CHR 0x0A, CHR 0x0A] @ ''  var x = ''
   \<and> trim ([CHR 0x0A, CHR 0x0A] @ ''  var x = '') = ''var x =''
   \<and> parseStatement (createSourceFile demo_host) ''var x =''
        (exec_jsx (new_StreamingExecutor None)) = Incomplete
   \<and> snd (run demo_host (new_StreamingExecutor None)
             [''print();'' @ [CHR 0x0A], [CHR 0x0A] @ ''  var x ='', '' ''])
     = Inr \<lparr>run_events =
              [\<lparr>ev_statement = ''print();'', ev_line = 1, ev_logs = ''hi'' @ [CHR 0x0A],
                ev_error = None\<rparr>,
               \<lparr>ev_statement = ''var x ='', ev_line = 3, ev_logs = [],
                ev_error =
                  Some \<lparr>err_type = Parse,
                        err_thrown = JHostError RunController ''Error'' ''Incomplete statement'',
                        err_message = ''Incomplete statement'', err_line = 3\<rparr>\<rparr>],
            run_result =
              \<lparr>res_logs = ''hi'' @ [CHR 0x0A],
               res_error =
                 Some \<lparr>err_type = Parse,
                       err_thrown = JHostError RunController ''Error'' ''Incomplete statement'',
                       err_message = ''Incomplete statement'', err_line = 3\<rparr>\<rparr>\<rparr>
   \<and> (\<exists>segs. concat [''print();'' @ [CHR 0x0A], [CHR 0x0A] @ ''  var x ='', '' '']
                = concat segs @ [CHR 0x0A, CHR 0x0A] @ ''  var x = ''
           \<and> [''print();''] = map trim segs
           \<and> (3::nat) = 1 + newlines (concat segs @ [CHR 0x0A, CHR 0x0A] @ ''  ''))"
proof -
  let ?ex = "new_StreamingExecutor None"
  let ?s = "[''print();'' @ [CHR 0x0A], [CHR 0x0A] @ ''  var x ='', '' '']"
  let ?st = "flow_state (scanned demo_host ?ex ?s)"
  have h1: "\<not> exec_running ?ex" by code_simp
  have h2: "\<not> returned (scanned demo_host ?ex ?s)" by code_simp
  have bf: "buffer ?st = [CHR 0x0A, CHR 0x0A] @ ''  var x = ''" by code_simp
  have tr: "trim ([CHR 0x0A, CHR 0x0A] @ ''  var x = '') = ''var x =''" by code_simp
  have t: "trim (buffer ?st) = ''var x =''" by (simp only: bf tr)
  have p: "parseStatement (createSourceFile demo_host) ''var x ='' (exec_jsx ?ex) = Incomplete"
    by code_simp
  have h3: "trim (buffer ?st) \<noteq> []" unfolding t by simp
  have h4: "parseStatement (createSourceFile demo_host) (trim (buffer ?st)) (exec_jsx ?ex)
            = Incomplete"
    by (simp only: t p)
  have q: "queued ?st = [\<lparr>ev_statement = ''print();'', ev_line = 1, ev_logs = ''hi'' @ [CHR 0x0A],
                          ev_error = None\<rparr>]"
    by code_simp
  have l: "statementStartLine ?st = 3" by code_simp
  have g: "allLogs ?st = ''hi'' @ [CHR 0x0A]" by code_simp
  have f: "finalError ?st = None" by code_simp
  have tw: "takeWhile is_space ([CHR 0x0A, CHR 0x0A] @ ''  var x = '') = [CHR 0x0A, CHR 0x0A] @ ''  ''"
    by code_simp
  note res = incomplete_residual [OF h1 h2 h3 h4]
  from res have "run demo_host ?ex ?s =
     ((self ?st)\<lparr>exec_running := False\<rparr>,
      Inr \<lparr>run_events =
             queued ?st
             @ [\<lparr>ev_statement = trim (buffer ?st), ev_line = statementStartLine ?st,
                 ev_logs = [],
                 ev_error =
                   Some \<lparr>err_type = Parse,
                         err_thrown = JHostError RunController ''Error'' ''Incomplete statement'',
                         err_message = ''Incomplete statement'',
                         err_line = statementStartLine ?st\<rparr>\<rparr>],
           run_result =
             \<lparr>res_logs = allLogs ?st,
              res_error =
                (case finalError ?st of
                   None \<Rightarrow>
                     Some \<lparr>err_type = Parse,
                           err_thrown = JHostError RunController ''Error'' ''Incomplete statement'',
                           err_message = ''Incomplete statement'',
                           err_line = statementStartLine ?st\<rparr>
                 | Some e \<Rightarrow> Some e)\<rparr>\<rparr>)"
    by (rule conjunct1)
  then have v: "snd (run demo_host ?ex ?s)
     = Inr \<lparr>run_events =
              [\<lparr>ev_statement = ''print();'', ev_line = 1, ev_logs = ''hi'' @ [CHR 0x0A],
                ev_error = None\<rparr>,
               \<lparr>ev_statement = ''var x ='', ev_line = 3, ev_logs = [],
                ev_error =
                  Some \<lparr>err_type = Parse,
                        err_thrown = JHostError RunController ''Error'' ''Incomplete statement'',
                        err_message = ''Incomplete statement'', err_line = 3\<rparr>\<rparr>],
            run_result =
              \<lparr>res_logs = ''hi'' @ [CHR 0x0A],
               res_error =
                 Some \<lparr>err_type = Parse,
                       err_thrown = JHostError RunController ''Error'' ''Incomplete statement'',
                       err_message = ''Incomplete statement'', err_line = 3\<rparr>\<rparr>\<rparr>"
    unfolding t q l g f by simp
  from res have "\<exists>segs. concat ?s = concat segs @ buffer ?st
           \<and> map ev_statement (queued ?st) = map trim segs
           \<and> statementStartLine ?st = 1 + newlines (concat segs @ takeWhile is_space (buffer ?st))"
    by (rule conjunct2)
  then have e: "\<exists>segs. concat ?s = concat segs @ [CHR 0x0A, CHR 0x0A] @ ''  var x = ''
           \<and> [''print();''] = map trim segs
           \<and> (3::nat) = 1 + newlines (concat segs @ [CHR 0x0A, CHR 0x0A] @ ''  '')"
    unfolding bf q l tw by simp
  from h1 h2 bf tr p v e show ?thesis by (intro conjI)
qed

subsection \<open>Order of the events and logs of the result\<close>

text \<open>
  Claim C8. For a run without error, the logs of the result are the concatenation of the
  logs of the events, in the order of the events, and the events follow the source: the
  source text splits into consecutive segments, one per event and in the same order,
  each event's statement being its segment trimmed, followed by white space only.
\<close>

theorem order_and_logs:
  assumes "snd (run h ex stream) = Inr r"
    and "res_error (run_result r) = None"
  shows "res_logs (run_result r) = concat (map ev_logs (run_events r))
       \<and> (\<exists>segs rest. concat stream = concat segs @ rest \<and> trim rest = []
             \<and> map ev_statement (run_events r) = map trim segs)"
proof
  let ?end = "settled h ex stream"
  let ?st = "flow_state (scanned h ex stream)"
  from assms(1) have nr: "\<not> exec_running ex" by (rule run_Inr)
  from assms(1) run_settled [OF nr, of h stream]
  have r: "run_events r = queued ?end" "res_logs (run_result r) = allLogs ?end"
    "res_error (run_result r) = finalError ?end"
    by auto
  show "res_logs (run_result r) = concat (map ev_logs (run_events r))"
    using settled_coherent [of h ex stream] r by (simp add: coherent_def)
  have co: "coherent ?st" by (rule scanned_coherent(1))
  then have nd: "Done \<notin> set (eventQueue ?st)" by (simp add: coherent_def)
  have nret: "\<not> returned (scanned h ex stream)"
  proof
    assume ret: "returned (scanned h ex stream)"
    then have "finalError ?st \<noteq> None"
      unfolding scanned_def by (intro scan_stream_returned_error coherent_initial)
    with ret r(3) assms(2) show False by (simp add: settled_def)
  qed
  from scanned_segments [OF nret]
  obtain segs where seg: "concat stream = concat segs @ buffer ?st"
    "map ev_statement (queued ?st) = map trim segs"
    by blast
  show "\<exists>segs rest. concat stream = concat segs @ rest \<and> trim rest = []
             \<and> map ev_statement (run_events r) = map trim segs"
  proof (cases rule: flush_cases [where h = h and st = ?st])
    case idle
    with nret r(3) assms(2) have "trim (buffer ?st) = []" by (simp add: settled_def)
    moreover from idle nret r(1) have "run_events r = queued ?st" by (simp add: settled_def)
    ultimately have "concat stream = concat segs @ buffer ?st \<and> trim (buffer ?st) = []
             \<and> map ev_statement (run_events r) = map trim segs"
      using seg by simp
    then show ?thesis by blast
  next
    case (emitted ev ex' w')
    with nret r(1) have "run_events r = queued ?st @ [ev]"
      by (simp add: settled_def queued_emit [OF nd])
    moreover from emitted(1) have "ev_statement ev = trim (buffer ?st)"
      by (simp add: statement_event_def)
    ultimately have "concat stream = concat (segs @ [buffer ?st]) @ [] \<and> trim [] = []
             \<and> map ev_statement (run_events r) = map trim (segs @ [buffer ?st])"
      using seg by simp
    then show ?thesis by blast
  qed
qed

theorem order_and_logs_witness:
  "snd (run demo_host (new_StreamingExecutor None) [''var x = 1; print(); '', ''print()''])
     = Inr \<lparr>run_events =
              [\<lparr>ev_statement = ''var x = 1;'', ev_line = 1, ev_logs = [], ev_error = None\<rparr>,
               \<lparr>ev_statement = ''print();'', ev_line = 1, ev_logs = ''hi'' @ [CHR 0x0A],
                ev_error = None\<rparr>,
               \<lparr>ev_statement = ''print()'', ev_line = 1, ev_logs = ''hi'' @ [CHR 0x0A],
                ev_error = None\<rparr>],
            run_result =
              \<lparr>res_logs = ''hi'' @ [CHR 0x0A] @ ''hi'' @ [CHR 0x0A], res_error = None\<rparr>\<rparr>
   \<and> (\<exists>segs rest. concat [''var x = 1; print(); '', ''print()''] = concat segs @ rest
         \<and> trim rest = []
         \<and> [''var x = 1;'', ''print();'', ''print()''] = map trim segs)"
proof -
  let ?ex = "new_StreamingExecutor None"
  let ?s = "[''var x = 1; print(); '', ''print()'']"
  let ?r = "\<lparr>run_events =
              [\<lparr>ev_statement = ''var x = 1;'', ev_line = 1, ev_logs = [], ev_error = None\<rparr>,
               \<lparr>ev_statement = ''print();'', ev_line = 1, ev_logs = ''hi'' @ [CHR 0x0A],
                ev_error = None\<rparr>,
               \<lparr>ev_statement = ''print()'', ev_line = 1, ev_logs = ''hi'' @ [CHR 0x0A],
                ev_error = None\<rparr>],
            run_result =
              \<lparr>res_logs = ''hi'' @ [CHR 0x0A] @ ''hi'' @ [CHR 0x0A], res_error = None\<rparr>\<rparr>"
  have h1: "snd (run demo_host ?ex ?s) = Inr ?r" by code_simp
  have h2: "res_error (run_result ?r) = None" by simp
  from order_and_logs [OF h1 h2]
  have "\<exists>segs rest. concat ?s = concat segs @ rest \<and> trim rest = []
         \<and> map ev_statement (run_events ?r) = map trim segs"
    by (rule conjunct2)
  then have "\<exists>segs rest. concat ?s = concat segs @ rest \<and> trim rest = []
         \<and> [''var x = 1;'', ''print();'', ''print()''] = map trim segs"
    by simp
  with h1 show ?thesis by (intro conjI)
qed

end
